theory Spec2Isabelle
  imports Complex_Main "HOL-Library.Word"
begin

section \<open>Outcomes of a call\<close>

text \<open>
  The C functions of the audio module return an \<open>int\<close> status and change the objects
  they are given. A call can also end abnormally: a \<open>NULL\<close> pointer is dereferenced, an
  \<open>assert\<close> fails, or \<open>memcpy\<close>/\<open>memset\<close> runs past the end of a buffer. These ends are
  the constructor \<open>Fault\<close>. \<open>Pending\<close> is produced only by the device callback, when the
  recorded answers of the filter graph end before the callback has returned.
\<close>

datatype fault = NullPointer | AssertionFailed | OutOfBounds

datatype 'a outcome = Return 'a | Fault fault | Pending

definition andthen :: "'a outcome \<Rightarrow> ('a \<Rightarrow> 'b outcome) \<Rightarrow> 'b outcome" where
  "andthen m f = (case m of Return x \<Rightarrow> f x | Fault e \<Rightarrow> Fault e | Pending \<Rightarrow> Pending)"

definition deref :: "'a option \<Rightarrow> 'a outcome" where
  "deref p = (case p of None \<Rightarrow> Fault NullPointer | Some x \<Rightarrow> Return x)"

section \<open>The decoding library, as the stream module sees it\<close>

text \<open>
  libavformat and libavcodec are not part of the repository. They are modelled by the
  answers they give: a container is the list of results that successive
  \<open>av_read_frame\<close> calls will produce, and a packet carries what the decoder makes of
  its payload (whether \<open>avcodec_send_packet\<close> rejects it, and the results that
  \<open>avcodec_receive_frame\<close> then hands out).

  \<open>AVERROR(EAGAIN)\<close> and \<open>AVERROR_EOF\<close> are the two codes the source tests for; every
  other failure is an \<open>av_failure\<close>, whose code is negative and differs from both.
\<close>

definition AVERROR_EAGAIN :: int where
  "AVERROR_EAGAIN = - 11"

definition AVERROR_EOF :: int where
  "AVERROR_EOF = - 541478725"

datatype av_failure = INVALIDDATA | ENOMEM | EIO | EINVAL

fun AVERROR :: "av_failure \<Rightarrow> int" where
  "AVERROR INVALIDDATA = - 1094995529"
| "AVERROR ENOMEM = - 12"
| "AVERROR EIO = - 5"
| "AVERROR EINVAL = - 22"

type_synonym byte = "8 word"

record AVFrame =
  best_effort_timestamp :: int
  data :: "byte list"

definition AV_NOPTS_VALUE :: int where
  "AV_NOPTS_VALUE = - (2 ^ 63)"

text \<open>A frame as \<open>av_frame_alloc\<close> and \<open>av_frame_unref\<close> leave it.\<close>

definition blank_frame :: AVFrame where
  "blank_frame = \<lparr>best_effort_timestamp = AV_NOPTS_VALUE, data = []\<rparr>"

record AVPacket =
  stream_index :: int
  send_fails :: "av_failure option"
  yields :: "(av_failure + AVFrame) list"

text \<open>A packet as \<open>av_packet_unref\<close> leaves it.\<close>

definition blank_packet :: AVPacket where
  "blank_packet = \<lparr>stream_index = 0, send_fails = None, yields = []\<rparr>"

datatype read_result = Page AVPacket | ReadError av_failure

record AVRational =
  num :: int
  den :: int

text \<open>
  \<open>av_q2d\<close> is \<open>num / (double) den\<close>. The \<open>double\<close> is modelled by a real number, so
  rounding is left out, and a zero denominator gives 0 here where C gives an infinity
  or a NaN.
\<close>

definition av_q2d :: "AVRational \<Rightarrow> real" where
  "av_q2d q = real_of_int (num q) / real_of_int (den q)"

datatype AVSampleFormat =
  AV_SAMPLE_FMT_NONE | AV_SAMPLE_FMT_U8 | AV_SAMPLE_FMT_S16 | AV_SAMPLE_FMT_S32 | AV_SAMPLE_FMT_FLT
| AV_SAMPLE_FMT_DBL | AV_SAMPLE_FMT_U8P | AV_SAMPLE_FMT_S16P | AV_SAMPLE_FMT_S32P
| AV_SAMPLE_FMT_FLTP | AV_SAMPLE_FMT_DBLP

record AVCodecParameters =
  par_sample_fmt :: AVSampleFormat
  par_channel_layout :: "64 word"
  par_channels :: int
  par_sample_rate :: int

record AVStream =
  index :: int
  stream_time_base :: AVRational
  codecpar :: AVCodecParameters

record AVCodec =
  long_name :: string

record AVFormatContext =
  streams :: "AVStream list"
  pages :: "read_result list"
  best_stream :: int
  best_codec :: "AVCodec option"

text \<open>
  The decoder context: the parameters the pipeline reads, the results waiting for
  \<open>avcodec_receive_frame\<close>, and whether the decoder has been told to flush.
\<close>

record AVCodecContext =
  sample_fmt :: AVSampleFormat
  channel_layout :: "64 word"
  channels :: int
  sample_rate :: int
  pending :: "(av_failure + AVFrame) list"
  draining :: bool

text \<open>
  \<open>av_read_frame\<close>: the next result of the container; at the end of the input it
  answers \<open>AVERROR_EOF\<close>, again and again. On an error the packet is blank.
\<close>

definition av_read_frame :: "AVFormatContext \<Rightarrow> int \<times> AVPacket \<times> AVFormatContext" where
  "av_read_frame d =
     (case pages d of
        [] \<Rightarrow> (AVERROR_EOF, blank_packet, d)
      | Page p # rest \<Rightarrow> (0, p, d\<lparr>pages := rest\<rparr>)
      | ReadError e # rest \<Rightarrow> (AVERROR e, blank_packet, d\<lparr>pages := rest\<rparr>))"

text \<open>
  \<open>avcodec_send_packet\<close>: a \<open>NULL\<close> packet starts the flush; once flushing, the decoder
  accepts nothing more; a packet it rejects leaves it unchanged; a packet it accepts
  adds its results to those waiting.
\<close>

definition avcodec_send_packet :: "AVCodecContext \<Rightarrow> AVPacket option \<Rightarrow> int \<times> AVCodecContext" where
  "avcodec_send_packet c pkt =
     (if draining c then (AVERROR_EOF, c)
      else case pkt of
        None \<Rightarrow> (0, c\<lparr>draining := True\<rparr>)
      | Some p \<Rightarrow>
          (case send_fails p of
             Some e \<Rightarrow> (AVERROR e, c)
           | None \<Rightarrow> (0, c\<lparr>pending := pending c @ yields p\<rparr>)))"

text \<open>
  \<open>avcodec_receive_frame\<close> unreferences the frame it is given before anything else, so
  the frame is blank unless the call succeeds. With nothing waiting it answers
  \<open>AVERROR(EAGAIN)\<close>, and \<open>AVERROR_EOF\<close> once the decoder has been flushed: a flushed
  decoder with nothing waiting stays so.
\<close>

definition avcodec_receive_frame :: "AVCodecContext \<Rightarrow> int \<times> AVFrame \<times> AVCodecContext" where
  "avcodec_receive_frame c =
     (case pending c of
        [] \<Rightarrow> (if draining c then (AVERROR_EOF, blank_frame, c)
               else (AVERROR_EAGAIN, blank_frame, c))
      | Inr f # rest \<Rightarrow> (0, f, c\<lparr>pending := rest\<rparr>)
      | Inl e # rest \<Rightarrow> (AVERROR e, blank_frame, c\<lparr>pending := rest\<rparr>))"

section \<open>audio/stream.c\<close>

text \<open>
  \<open>struct oshu_stream\<close>, with the fields \<open>stream.c\<close> and \<open>pipeline.c\<close> use. A pointer
  field is an option: \<open>None\<close> is \<open>NULL\<close>.
\<close>

record oshu_stream =
  demuxer :: "AVFormatContext option"
  codec :: "AVCodec option"
  stream :: "AVStream option"
  time_base :: real
  decoder :: "AVCodecContext option"
  packet :: AVPacket
  frame :: "AVFrame option"

text \<open>
  The \<open>for (;;)\<close> loop of \<open>next_page\<close>: it ends with the \<open>rc\<close> the loop was left with.
  A packet of another stream is unreferenced and the loop reads on.
\<close>

function next_page_loop :: "oshu_stream \<Rightarrow> (int \<times> oshu_stream) outcome" where
  "next_page_loop s =
     (case demuxer s of
        None \<Rightarrow> Fault NullPointer
      | Some d \<Rightarrow>
          (case av_read_frame d of (rc, pkt, d') \<Rightarrow>
             let s1 = s\<lparr>demuxer := Some d', packet := pkt\<rparr> in
             if rc = AVERROR_EOF then
               (case decoder s1 of
                  None \<Rightarrow> Fault NullPointer
                | Some c \<Rightarrow>
                    (case avcodec_send_packet c None of (rc', c') \<Rightarrow>
                       Return (rc', s1\<lparr>decoder := Some c'\<rparr>)))
             else if rc < 0 then Return (rc, s1)
             else
               (case stream s1 of
                  None \<Rightarrow> Fault NullPointer
                | Some st \<Rightarrow>
                    if stream_index pkt = index st then
                      (case decoder s1 of
                         None \<Rightarrow> Fault NullPointer
                       | Some c \<Rightarrow>
                           (case avcodec_send_packet c (Some pkt) of (rc', c') \<Rightarrow>
                              Return (rc', s1\<lparr>decoder := Some c'\<rparr>)))
                    else next_page_loop (s1\<lparr>packet := blank_packet\<rparr>))))"
  by pat_completeness auto
termination
  by (relation "measure (\<lambda>s. case demuxer s of None \<Rightarrow> 0 | Some d \<Rightarrow> length (pages d))")
    (auto simp: av_read_frame_def AVERROR_EOF_def split: list.splits read_result.splits
      av_failure.splits)

declare next_page_loop.simps [simp del]

definition next_page :: "oshu_stream \<Rightarrow> (int \<times> oshu_stream) outcome" where
  "next_page s =
     andthen (next_page_loop s) (\<lambda>(rc, s1).
       let s2 = s1\<lparr>packet := blank_packet\<rparr> in
       if rc < 0 then Return (- 1, s2) else Return (0, s2))"

text \<open>
  What is left to read: two for every result of the container, one more while the
  decoder has not been flushed. It bounds the loop of \<open>oshu_next_frame\<close>.
\<close>

definition remaining :: "oshu_stream \<Rightarrow> nat" where
  "remaining s =
     (case demuxer s of None \<Rightarrow> 0 | Some d \<Rightarrow> 2 * length (pages d))
     + (case decoder s of None \<Rightarrow> 0 | Some c \<Rightarrow> if draining c then 0 else 1)"

lemma AVERROR_negative: "AVERROR e < 0"
  by (cases e) simp_all

lemma AVERROR_not_EAGAIN: "AVERROR e \<noteq> AVERROR_EAGAIN"
  by (cases e) (simp_all add: AVERROR_EAGAIN_def)

lemma AVERROR_not_EOF: "AVERROR e \<noteq> AVERROR_EOF"
  by (cases e) (simp_all add: AVERROR_EOF_def)

lemma next_page_loop_null:
  "demuxer s = None \<Longrightarrow> next_page_loop s = Fault NullPointer"
  by (subst next_page_loop.simps) simp

lemma next_page_loop_eof:
  "demuxer s = Some d \<Longrightarrow> pages d = [] \<Longrightarrow>
   next_page_loop s =
     (case decoder s of
        None \<Rightarrow> Fault NullPointer
      | Some c \<Rightarrow>
          Return (fst (avcodec_send_packet c None),
            s\<lparr>demuxer := Some d, packet := blank_packet,
              decoder := Some (snd (avcodec_send_packet c None))\<rparr>))"
  by (subst next_page_loop.simps)
    (simp add: av_read_frame_def Let_def split: option.splits prod.splits)

lemma next_page_loop_read_error:
  "demuxer s = Some d \<Longrightarrow> pages d = ReadError e # rest \<Longrightarrow>
   next_page_loop s =
     Return (AVERROR e, s\<lparr>demuxer := Some (d\<lparr>pages := rest\<rparr>), packet := blank_packet\<rparr>)"
  using AVERROR_negative [of e] AVERROR_not_EOF [of e]
  by (subst next_page_loop.simps) (simp add: av_read_frame_def Let_def)

lemma next_page_loop_page:
  "demuxer s = Some d \<Longrightarrow> pages d = Page p # rest \<Longrightarrow>
   next_page_loop s =
     (case stream s of
        None \<Rightarrow> Fault NullPointer
      | Some st \<Rightarrow>
          if stream_index p = index st then
            (case decoder s of
               None \<Rightarrow> Fault NullPointer
             | Some c \<Rightarrow>
                 Return (fst (avcodec_send_packet c (Some p)),
                   s\<lparr>demuxer := Some (d\<lparr>pages := rest\<rparr>), packet := p,
                     decoder := Some (snd (avcodec_send_packet c (Some p)))\<rparr>))
          else next_page_loop (s\<lparr>demuxer := Some (d\<lparr>pages := rest\<rparr>), packet := blank_packet\<rparr>))"
  by (subst next_page_loop.simps)
    (simp add: av_read_frame_def Let_def AVERROR_EOF_def split: option.splits prod.splits)

lemma next_page_loop_remaining:
  "demuxer s = Some d \<Longrightarrow> pages d = ps \<Longrightarrow> next_page_loop s = Return (rc, s') \<Longrightarrow> 0 \<le> rc
    \<Longrightarrow> decoder s = Some c \<Longrightarrow> \<not> draining c \<Longrightarrow> remaining s' < remaining s"
proof (induction ps arbitrary: s d)
  case Nil
  then show ?case
    by (auto simp: next_page_loop_eof avcodec_send_packet_def remaining_def)
next
  case (Cons r rest)
  show ?case
  proof (cases r)
    case (ReadError e)
    with Cons.prems AVERROR_negative [of e] show ?thesis
      by (simp add: next_page_loop_read_error)
  next
    case (Page p)
    let ?s2 = "s\<lparr>demuxer := Some (d\<lparr>pages := rest\<rparr>), packet := blank_packet\<rparr>"
    from Cons.prems Page obtain st where st: "stream s = Some st"
      by (auto simp: next_page_loop_page split: option.splits)
    show ?thesis
    proof (cases "stream_index p = index st")
      case True
      with Cons.prems Page st show ?thesis
        by (auto simp: next_page_loop_page avcodec_send_packet_def remaining_def
            split: option.splits if_splits)
    next
      case False
      with Cons.prems Page st have run: "next_page_loop ?s2 = Return (rc, s')"
        by (simp add: next_page_loop_page)
      have "remaining s' < remaining ?s2"
        by (rule Cons.IH [OF _ _ run Cons.prems(4), of "d\<lparr>pages := rest\<rparr>" ])
          (simp_all add: Cons.prems)
      also have "remaining ?s2 < remaining s"
        using Cons.prems by (simp add: remaining_def)
      finally show ?thesis .
    qed
  qed
qed

lemma remaining_packet [simp]: "remaining (s\<lparr>packet := p\<rparr>) = remaining s"
  by (simp add: remaining_def)

lemma next_page_remaining:
  assumes "next_page s = Return (rc, s')" "0 \<le> rc" "decoder s = Some c" "\<not> draining c"
  shows "remaining s' < remaining s"
proof -
  from assms(1) obtain rc1 s1 where run: "next_page_loop s = Return (rc1, s1)"
    and out: "s' = s1\<lparr>packet := blank_packet\<rparr>" "rc = (if rc1 < 0 then - 1 else 0)"
    by (auto simp: next_page_def andthen_def Let_def split: outcome.splits if_splits)
  from out(2) assms(2) have rc1: "0 \<le> rc1"
    by (simp split: if_splits)
  from run obtain d where d: "demuxer s = Some d"
    by (cases "demuxer s") (simp_all add: next_page_loop_null)
  from next_page_loop_remaining [OF d refl run rc1 assms(3,4)] out(1) show ?thesis
    by simp
qed

lemma receive_again:
  "avcodec_receive_frame c = (AVERROR_EAGAIN, f, c') \<Longrightarrow>
   c' = c \<and> f = blank_frame \<and> pending c = [] \<and> \<not> draining c"
  using AVERROR_not_EAGAIN
  by (auto simp: avcodec_receive_frame_def AVERROR_EAGAIN_def AVERROR_EOF_def
      split: list.splits sum.splits if_splits)

lemma next_frame_step_remaining:
  assumes "decoder s = Some c" "avcodec_receive_frame c = (AVERROR_EAGAIN, y)" "(f, c') = y"
    and "next_page (s\<lparr>decoder := Some c', frame := Some f\<rparr>) = Return x1" "(rc', s2) = x1"
    and "\<not> rc' < 0"
  shows "remaining s2 < remaining s"
proof -
  let ?s1 = "s\<lparr>decoder := Some c', frame := Some f\<rparr>"
  from assms(2,3) have "avcodec_receive_frame c = (AVERROR_EAGAIN, f, c')"
    by simp
  from receive_again [OF this] have c: "c' = c" "\<not> draining c"
    by simp_all
  from assms(4,5) have run: "next_page ?s1 = Return (rc', s2)"
    by simp
  from assms(6) have "0 \<le> rc'"
    by simp
  from next_page_remaining [OF run this, of c] c have "remaining s2 < remaining ?s1"
    by simp
  also have "remaining ?s1 = remaining s"
    using assms(1) c by (simp add: remaining_def)
  finally show ?thesis .
qed

text \<open>
  \<open>oshu_next_frame\<close>: ask the decoder for a frame; when it wants more input, feed it
  the next page and ask again.
\<close>

function oshu_next_frame :: "oshu_stream \<Rightarrow> (int \<times> oshu_stream) outcome" where
  "oshu_next_frame s =
     (case decoder s of
        None \<Rightarrow> Fault NullPointer
      | Some c \<Rightarrow>
          (case frame s of
             None \<Rightarrow> Fault NullPointer
           | Some f0 \<Rightarrow>
               (case avcodec_receive_frame c of (rc, f, c') \<Rightarrow>
                  let s1 = s\<lparr>decoder := Some c', frame := Some f\<rparr> in
                  if rc = 0 then Return (0, s1)
                  else if rc = AVERROR_EAGAIN then
                    (case next_page s1 of
                       Return (rc', s2) \<Rightarrow>
                         if rc' < 0 then Return (- 1, s2) else oshu_next_frame s2
                     | Fault e \<Rightarrow> Fault e
                     | Pending \<Rightarrow> Pending)
                  else if rc = AVERROR_EOF then Return (AVERROR_EOF, s1)
                  else Return (- 1, s1))))"
  by pat_completeness auto
termination
  apply (relation "measure remaining")
   apply simp
  apply (simp only: in_measure)
  apply (rule next_frame_step_remaining [OF _ sym]; (assumption | simp))
  done

declare oshu_next_frame.simps [simp del]

section \<open>Resources\<close>

text \<open>
  What the module acquires and releases is recorded as a list of events, oldest first.
  \<open>Store r\<close> is a store through the pointer to \<open>r\<close>.
\<close>

datatype resource =
  Audio_context | Demuxer | Decoder | Stream_frame | Device
| Filter_graph | Filter string | Music_params | Effect_params | Pipeline_output

datatype event = Acquire resource | Release resource | Store resource

text \<open>
  \<open>held evs live\<close> replays the events from the resources \<open>live\<close>: the result is what
  is still held at the end, or \<open>None\<close> when something is released that is not held (a
  second release, or the release of a pointer that was never set).
\<close>

fun held :: "event list \<Rightarrow> resource list \<Rightarrow> resource list option" where
  "held [] live = Some live"
| "held (Acquire r # es) live = held es (r # live)"
| "held (Release r # es) live = (if r \<in> set live then held es (remove1 r live) else None)"
| "held (Store r # es) live = held es live"

section \<open>The platform\<close>

text \<open>
  Everything outside the repository that \<open>open\<close> depends on: whether an allocation
  succeeds, the status a library call reports, what \<open>avformat_open_input\<close> makes of a
  URL, which filters are registered, what \<open>SDL_OpenAudioDevice\<close> answers (the device
  id, 0 on failure, and the obtained spec), and the answers the filter graph's sink
  will give to the callback.
\<close>

datatype call =
  Find_stream_info | Parameters_to_context | Open2
| Parameters_set string | Init_str string | Link string string | Graph_config

text \<open>
  One answer of \<open>av_buffersink_get_frame\<close>. With \<open>Again m e w\<close> the sink has no buffer
  ready: \<open>m\<close> and \<open>e\<close> are what \<open>av_buffersrc_get_nb_failed_requests\<close> then reports
  for the music and the effect source, and \<open>w\<close> is the status of a write to the music
  source in that round.
\<close>

datatype sink_answer = Output "byte list" | Again nat nat int | End_of_stream | Failed av_failure

record SDL_AudioSpec =
  freq :: int
  format :: "16 word"
  spec_channels :: "8 word"
  silence :: "8 word"
  samples :: "16 word"

definition AUDIO_F32 :: "16 word" where
  "AUDIO_F32 = 0x8120"

record platform =
  allocates :: "resource \<Rightarrow> bool"
  answers :: "call \<Rightarrow> int"
  media :: "string \<Rightarrow> av_failure + AVFormatContext"
  registered :: "string \<Rightarrow> bool"
  audio_device :: "SDL_AudioSpec \<Rightarrow> nat \<times> SDL_AudioSpec"
  graph_trace :: "sink_answer list"

section \<open>audio/stream.c: opening and closing\<close>

definition zeroed_stream :: oshu_stream where
  "zeroed_stream =
     \<lparr>demuxer = None, codec = None, stream = None, time_base = 0, decoder = None,
      packet = blank_packet, frame = None\<rparr>"

text \<open>
  \<open>open_demuxer\<close>. When \<open>avformat_open_input\<close> fails it frees the context and leaves
  the pointer \<open>NULL\<close>. \<open>av_find_best_stream\<close> answers with \<open>best_stream\<close> and, on
  success, stores \<open>best_codec\<close>.
\<close>

definition open_demuxer ::
  "platform \<Rightarrow> string \<Rightarrow> oshu_stream \<Rightarrow> event list \<Rightarrow> (int \<times> oshu_stream \<times> event list) outcome" where
  "open_demuxer env url s evs =
     (case media env url of
        Inl e \<Rightarrow> Return (- 1, s\<lparr>demuxer := None\<rparr>, evs)
      | Inr d \<Rightarrow>
          let s1 = s\<lparr>demuxer := Some d\<rparr>; evs1 = evs @ [Acquire Demuxer] in
          if answers env Find_stream_info < 0 then Return (- 1, s1, evs1)
          else
            let rc = best_stream d;
                s2 = (if rc < 0 then s1 else s1\<lparr>codec := best_codec d\<rparr>) in
            if rc < 0 \<or> codec s2 = None then Return (- 1, s2, evs1)
            else if nat rc < length (streams d) then
              let st = streams d ! nat rc in
              Return (0, s2\<lparr>stream := Some st, time_base := av_q2d (stream_time_base st)\<rparr>, evs1)
            else Fault OutOfBounds)"

text \<open>A decoder context as \<open>avcodec_alloc_context3\<close> returns it.\<close>

definition fresh_decoder :: AVCodecContext where
  "fresh_decoder =
     \<lparr>sample_fmt = AV_SAMPLE_FMT_NONE, channel_layout = 0, channels = 0, sample_rate = 0,
      pending = [], draining = False\<rparr>"

definition avcodec_parameters_to_context :: "AVCodecContext \<Rightarrow> AVCodecParameters \<Rightarrow> AVCodecContext" where
  "avcodec_parameters_to_context c par =
     c\<lparr>sample_fmt := par_sample_fmt par, channel_layout := par_channel_layout par,
       channels := par_channels par, sample_rate := par_sample_rate par\<rparr>"

text \<open>
  \<open>open_decoder\<close>. The result of \<open>avcodec_alloc_context3\<close> is not checked, so a failed
  allocation is a \<open>NULL\<close> dereference in \<open>avcodec_parameters_to_context\<close>.
\<close>

definition open_decoder ::
  "platform \<Rightarrow> oshu_stream \<Rightarrow> event list \<Rightarrow> (int \<times> oshu_stream \<times> event list) outcome" where
  "open_decoder env s evs =
     (let got = allocates env Decoder;
          s1 = s\<lparr>decoder := (if got then Some fresh_decoder else None)\<rparr>;
          evs1 = evs @ (if got then [Acquire Decoder] else []) in
      andthen (deref (stream s1)) (\<lambda>st.
      andthen (deref (decoder s1)) (\<lambda>c.
        if answers env Parameters_to_context < 0 then Return (- 1, s1, evs1)
        else
          let s2 = s1\<lparr>decoder := Some (avcodec_parameters_to_context c (codecpar st))\<rparr> in
          if answers env Open2 < 0 then Return (- 1, s2, evs1)
          else if allocates env Stream_frame then
            Return (0, s2\<lparr>frame := Some blank_frame\<rparr>, evs1 @ [Acquire Stream_frame])
          else Return (- 1, s2\<lparr>frame := None\<rparr>, evs1))))"

text \<open>
  \<open>oshu_close_stream\<close>: each pointer that is set is released and reset to \<open>NULL\<close> (the
  three library calls take the address of the pointer and clear it).
\<close>

definition oshu_close_stream :: "oshu_stream \<Rightarrow> event list \<Rightarrow> oshu_stream \<times> event list" where
  "oshu_close_stream s evs =
     (let (s1, evs1) = (if frame s \<noteq> None
                        then (s\<lparr>frame := None\<rparr>, evs @ [Release Stream_frame]) else (s, evs));
          (s2, evs2) = (if decoder s1 \<noteq> None
                        then (s1\<lparr>decoder := None\<rparr>, evs1 @ [Release Decoder]) else (s1, evs1))
      in if demuxer s2 \<noteq> None
         then (s2\<lparr>demuxer := None\<rparr>, evs2 @ [Release Demuxer]) else (s2, evs2))"

definition oshu_open_stream ::
  "platform \<Rightarrow> string \<Rightarrow> oshu_stream \<Rightarrow> event list \<Rightarrow> (int \<times> oshu_stream \<times> event list) outcome" where
  "oshu_open_stream env url s evs =
     andthen (open_demuxer env url s evs) (\<lambda>(rc1, s1, evs1).
       if rc1 < 0 then Return (- 1, oshu_close_stream s1 evs1)
       else
         andthen (open_decoder env s1 evs1) (\<lambda>(rc2, s2, evs2).
           if rc2 < 0 then Return (- 1, oshu_close_stream s2 evs2)
           else
             andthen (oshu_next_frame s2) (\<lambda>(rc3, s3).
               if rc3 < 0 then Return (- 1, oshu_close_stream s3 evs2)
               else Return (0, s3, evs2))))"

section \<open>The filter graph and the device, as the pipeline sees them\<close>

text \<open>
  libavfilter is not part of the repository either. A filter instance keeps what
  \<open>create_graph\<close> configures (the filter, the instance name, the source parameters, the
  option string) and, for the two sources and the sink, what the callback reads and
  writes at run time.
\<close>

record AVBufferSrcParameters =
  src_format :: AVSampleFormat
  src_time_base :: AVRational
  src_channel_layout :: "64 word"
  src_sample_rate :: int

text \<open>Parameters as \<open>av_buffersrc_parameters_alloc\<close> returns them.\<close>

definition blank_parameters :: AVBufferSrcParameters where
  "blank_parameters =
     \<lparr>src_format = AV_SAMPLE_FMT_NONE, src_time_base = \<lparr>num = 0, den = 0\<rparr>,
      src_channel_layout = 0, src_sample_rate = 0\<rparr>"

record AVFilterContext =
  filter_name :: string
  instance_name :: string
  src_params :: "AVBufferSrcParameters option"
  initialised :: bool
  init_args :: "string option"
  nb_failed_requests :: nat
  write_answer :: int
  written :: "AVFrame option list"
  trace :: "sink_answer list"
  frame_size :: int

record AVFilterGraph =
  links :: "(string \<times> nat \<times> string \<times> nat) list"
  configured :: bool

record oshu_pipeline =
  graph :: "AVFilterGraph option"
  music :: "AVFilterContext option"
  effect :: "AVFilterContext option"
  mixer :: "AVFilterContext option"
  converter :: "AVFilterContext option"
  sink :: "AVFilterContext option"
  output_frame :: "AVFrame option"

record oshu_sample =
  sample_size :: "32 word"
  sample_length :: "32 word"

record oshu_audio =
  source :: oshu_stream
  pipeline :: oshu_pipeline
  device_id :: nat
  device_spec :: SDL_AudioSpec
  current_timestamp :: real
  finished :: int
  overlay :: "oshu_sample option"

definition sample_buffer_size :: int where
  "sample_buffer_size = 1024"

definition AV_CH_LAYOUT_STEREO :: "64 word" where
  "AV_CH_LAYOUT_STEREO = 3"

text \<open>
  \<open>av_buffersrc_write_frame\<close>: the status is the one the graph announced for this
  round; an accepted frame (\<open>NULL\<close> marks the end of the input) is appended to what
  the source has received, and the count of failed requests starts again.
\<close>

definition av_buffersrc_write_frame ::
  "AVFilterContext \<Rightarrow> AVFrame option \<Rightarrow> int \<times> AVFilterContext" where
  "av_buffersrc_write_frame src f =
     (if write_answer src = 0
      then (0, src\<lparr>written := written src @ [f], nb_failed_requests := 0\<rparr>)
      else (write_answer src, src))"

definition announce :: "nat \<Rightarrow> int \<Rightarrow> AVFilterContext \<Rightarrow> AVFilterContext" where
  "announce n w src = src\<lparr>nb_failed_requests := n, write_answer := w\<rparr>"

text \<open>
  \<open>av_buffersink_get_frame(p->sink, p->output)\<close>: the next recorded answer of the
  sink. When the answers have run out, the call has not returned yet.
\<close>

definition av_buffersink_get_frame :: "oshu_pipeline \<Rightarrow> (int \<times> oshu_pipeline) outcome" where
  "av_buffersink_get_frame p =
     andthen (deref (sink p)) (\<lambda>k.
       case trace k of
         [] \<Rightarrow> Pending
       | a # rest \<Rightarrow>
           let p1 = p\<lparr>sink := Some (k\<lparr>trace := rest\<rparr>)\<rparr> in
           (case a of
              Output bytes \<Rightarrow>
                andthen (deref (output_frame p1)) (\<lambda>out.
                  Return (0, p1\<lparr>output_frame := Some (out\<lparr>data := bytes\<rparr>)\<rparr>))
            | Again m e w \<Rightarrow>
                Return (AVERROR_EAGAIN,
                  p1\<lparr>music := map_option (announce m w) (music p1),
                     effect := map_option (announce e 0) (effect p1)\<rparr>)
            | End_of_stream \<Rightarrow> Return (AVERROR_EOF, p1)
            | Failed e \<Rightarrow> Return (AVERROR e, p1)))"

text \<open>
  \<open>memcpy(dst, src, n)\<close> and \<open>memset(s, c, n)\<close> on byte buffers. Running past the end
  of a buffer is a fault. \<open>memset\<close> converts \<open>c\<close> to \<open>unsigned char\<close>.
\<close>

definition memcpy :: "byte list \<Rightarrow> byte list \<Rightarrow> int \<Rightarrow> byte list outcome" where
  "memcpy dst src n =
     (if n < 0 \<or> nat n > length src \<or> nat n > length dst then Fault OutOfBounds
      else Return (take (nat n) src @ drop (nat n) dst))"

definition memset :: "byte list \<Rightarrow> int \<Rightarrow> nat \<Rightarrow> byte list outcome" where
  "memset s c n =
     (if n > length s then Fault OutOfBounds
      else Return (replicate n (word_of_int c) @ drop n s))"

section \<open>audio/pipeline.c\<close>

text \<open>
  \<open>next_frame\<close>: decode a frame and hand it to the music source, or hand over the end
  marker when the stream gives no frame. The timestamp is taken from a frame whose
  \<open>best_effort_timestamp\<close> is positive. The \<open>double\<close> product is a product of reals.
\<close>

definition next_frame :: "oshu_audio \<Rightarrow> (int \<times> oshu_audio) outcome" where
  "next_frame audio =
     andthen (oshu_next_frame (source audio)) (\<lambda>(rc, s).
       let a1 = audio\<lparr>source := s\<rparr> in
       andthen (deref (music (pipeline a1))) (\<lambda>m.
         if rc < 0 then
           (case av_buffersrc_write_frame m None of (rc1, m1) \<Rightarrow>
              if rc1 \<noteq> 0 then Fault AssertionFailed
              else Return (0, a1\<lparr>pipeline := (pipeline a1)\<lparr>music := Some m1\<rparr>\<rparr>))
         else
           (case av_buffersrc_write_frame m (frame s) of (rc1, m1) \<Rightarrow>
              if rc1 \<noteq> 0 then Fault AssertionFailed
              else
                andthen (deref (frame s)) (\<lambda>f.
                  let a2 = a1\<lparr>pipeline := (pipeline a1)\<lparr>music := Some m1\<rparr>\<rparr>;
                      ts = best_effort_timestamp f in
                  if ts > 0
                  then Return (0, a2\<lparr>current_timestamp := time_base s * real_of_int ts\<rparr>)
                  else Return (0, a2)))))"

text \<open>
  \<open>feed\<close>. The write of the overlay's frame is commented out in the source: a pending
  overlay is only dropped. The status of the write to the effect source is ignored.
\<close>

definition feed :: "oshu_audio \<Rightarrow> oshu_audio outcome" where
  "feed audio =
     andthen (deref (music (pipeline audio))) (\<lambda>m.
     andthen (if nb_failed_requests m > 0
              then andthen (next_frame audio) (\<lambda>(rc, a). Return a)
              else Return audio) (\<lambda>a1.
     andthen (deref (effect (pipeline a1))) (\<lambda>e.
       if nb_failed_requests e > 0 then
         (if overlay a1 \<noteq> None then Return (a1\<lparr>overlay := None\<rparr>)
          else
            (case av_buffersrc_write_frame e None of (rc, e1) \<Rightarrow>
               Return (a1\<lparr>pipeline := (pipeline a1)\<lparr>effect := Some e1\<rparr>\<rparr>)))
       else Return a1)))"

text \<open>How many answers the sink still has: it bounds the loop of the callback.\<close>

definition answers_left :: "oshu_audio \<Rightarrow> nat" where
  "answers_left audio = (case sink (pipeline audio) of None \<Rightarrow> 0 | Some k \<Rightarrow> length (trace k))"

lemma andthen_cong [fundef_cong]:
  "m = m' \<Longrightarrow> (\<And>x. m' = Return x \<Longrightarrow> f x = f' x) \<Longrightarrow> andthen m f = andthen m' f'"
  by (simp add: andthen_def split: outcome.splits)

lemma andthen_Return_iff:
  "andthen m f = Return y \<longleftrightarrow> (\<exists>x. m = Return x \<and> f x = Return y)"
  by (simp add: andthen_def split: outcome.splits)

lemma deref_Return_iff: "deref p = Return x \<longleftrightarrow> p = Some x"
  by (simp add: deref_def split: option.splits)

lemma andthen_simps [simp]:
  "andthen (Return x) f = f x"
  "andthen (Fault e) f = Fault e"
  "andthen Pending f = Pending"
  by (simp_all add: andthen_def)

lemma deref_simps [simp]:
  "deref None = Fault NullPointer"
  "deref (Some x) = Return x"
  by (simp_all add: deref_def)

lemma next_frame_sink:
  "next_frame audio = Return (rc, a) \<Longrightarrow> sink (pipeline a) = sink (pipeline audio)"
  by (auto simp: next_frame_def andthen_Return_iff deref_Return_iff Let_def case_prod_beta
      split: if_splits)

lemma feedE:
  "feed audio = Return a \<Longrightarrow>
   \<exists>a1. (a1 = audio \<or> (\<exists>rc. next_frame audio = Return (rc, a1))) \<and>
     (a = a1 \<or> a = a1\<lparr>overlay := None\<rparr> \<or>
       (\<exists>e1. a = a1\<lparr>pipeline := (pipeline a1)\<lparr>effect := Some e1\<rparr>\<rparr>))"
  by (auto simp: feed_def andthen_Return_iff deref_Return_iff case_prod_beta split: if_splits)

lemma feed_sink:
  "feed audio = Return a \<Longrightarrow> sink (pipeline a) = sink (pipeline audio)"
  by (drule feedE) (auto dest: next_frame_sink)

lemma get_frame_answers_left:
  assumes "av_buffersink_get_frame (pipeline audio) = Return (rc, p)"
  shows "answers_left (audio\<lparr>pipeline := p\<rparr>) < answers_left audio"
proof -
  from assms obtain k where k: "sink (pipeline audio) = Some k"
    by (auto simp: av_buffersink_get_frame_def andthen_Return_iff deref_Return_iff)
  from assms k obtain a rest where tr: "trace k = a # rest"
    by (cases "trace k") (auto simp: av_buffersink_get_frame_def)
  from assms k tr have "sink p = Some (k\<lparr>trace := rest\<rparr>)"
    by (cases a)
      (auto simp: av_buffersink_get_frame_def Let_def andthen_Return_iff deref_Return_iff)
  with k tr show ?thesis
    by (simp add: answers_left_def)
qed

lemma feed_answers_left: "feed audio = Return a \<Longrightarrow> answers_left a = answers_left audio"
  by (simp add: answers_left_def feed_sink)

lemma callback_round_answers_left:
  assumes "av_buffersink_get_frame (pipeline audio) = Return x" "(rc, p) = x"
    and "feed (audio\<lparr>pipeline := p\<rparr>) = Return a"
  shows "answers_left a < answers_left audio"
  using get_frame_answers_left [of audio rc p] feed_answers_left [OF assms(3)] assms(1,2)
  by simp

text \<open>
  \<open>audio_callback\<close>. The last line of the source is
  \<open>memset(buffer, len, audio->device_spec.silence)\<close>: the second argument of \<open>memset\<close>
  is the byte to store and the third the number of bytes.
\<close>

function audio_callback :: "oshu_audio \<Rightarrow> byte list \<Rightarrow> int \<Rightarrow> (oshu_audio \<times> byte list) outcome" where
  "audio_callback audio buffer len =
     (if finished audio \<noteq> 0 then
        andthen (memset buffer len (unat (silence (device_spec audio)))) (\<lambda>b. Return (audio, b))
      else
        andthen (av_buffersink_get_frame (pipeline audio)) (\<lambda>(rc, p).
          let a1 = audio\<lparr>pipeline := p\<rparr> in
          if rc = AVERROR_EAGAIN then
            andthen (feed a1) (\<lambda>a2. audio_callback a2 buffer len)
          else if rc = AVERROR_EOF then
            andthen (memset buffer len (unat (silence (device_spec a1))))
              (\<lambda>b. Return (a1\<lparr>finished := 1\<rparr>, b))
          else if rc = 0 then
            andthen (deref (output_frame p)) (\<lambda>out.
              andthen (memcpy buffer (data out) len) (\<lambda>b. Return (a1, b)))
          else
            andthen (memset buffer len (unat (silence (device_spec a1))))
              (\<lambda>b. Return (a1, b))))"
  by pat_completeness auto
termination
  apply (relation "measure (\<lambda>(audio, buffer, len). answers_left audio)")
   apply simp
  apply (simp only: in_measure prod.case)
  apply (rule callback_round_answers_left; assumption)
  done

declare audio_callback.simps [simp del]

text \<open>
  \<open>open_device\<close>. \<open>want.channels\<close> is a \<open>Uint8\<close> and \<open>want.samples\<close> a \<open>Uint16\<close>, so
  the assignments truncate. On failure SDL returns 0 and the obtained spec is not
  relied upon; on success the device is paused.
\<close>

definition zeroed_spec :: SDL_AudioSpec where
  "zeroed_spec = \<lparr>freq = 0, format = 0, spec_channels = 0, silence = 0, samples = 0\<rparr>"

definition open_device ::
  "platform \<Rightarrow> oshu_audio \<Rightarrow> event list \<Rightarrow> (int \<times> oshu_audio \<times> event list) outcome" where
  "open_device env audio evs =
     andthen (deref (decoder (source audio))) (\<lambda>c.
       let want = zeroed_spec\<lparr>freq := sample_rate c, format := AUDIO_F32,
                    spec_channels := word_of_int (channels c)\<rparr>;
           want = want\<lparr>samples := word_of_int (sample_buffer_size * uint (spec_channels want))\<rparr>;
           (id, obtained) = audio_device env want;
           a1 = audio\<lparr>device_id := id, device_spec := obtained\<rparr> in
       if id = 0 then Return (- 1, a1, evs)
       else Return (0, a1, evs @ [Acquire Device]))"

text \<open>
  \<open>create_graph\<close>, in the stages the source marks with its debug messages. A stage
  works on the pipeline and the events; it ends with 0, or with \<open>- 1\<close> where the source
  jumps to \<open>fail\<close>. A failed \<open>assert\<close> is a fault.
\<close>

type_synonym stage = "oshu_pipeline \<times> event list \<Rightarrow> (int \<times> oshu_pipeline \<times> event list) outcome"

definition then_stage :: "(int \<times> oshu_pipeline \<times> event list) outcome \<Rightarrow> stage \<Rightarrow>
    (int \<times> oshu_pipeline \<times> event list) outcome" where
  "then_stage m next_stage =
     andthen m (\<lambda>(rc, st). if rc \<noteq> 0 then Return (rc, st) else next_stage st)"

definition asserting :: "bool \<Rightarrow> 'a outcome \<Rightarrow> 'a outcome" where
  "asserting ok m = (if ok then m else Fault AssertionFailed)"

text \<open>
  \<open>avfilter_graph_alloc_filter\<close>: a new instance of a filter in the graph. The sink is
  created with the answers the platform has in store for it.
\<close>

definition new_filter :: "platform \<Rightarrow> string \<Rightarrow> string \<Rightarrow> AVFilterContext" where
  "new_filter env f n =
     \<lparr>filter_name = f, instance_name = n, src_params = None, initialised = False,
      init_args = None, nb_failed_requests = 0, write_answer = 0, written = [],
      trace = (if f = ''abuffersink'' then graph_trace env else []), frame_size = 0\<rparr>"

definition avfilter_init_str :: "AVFilterContext \<Rightarrow> string option \<Rightarrow> AVFilterContext" where
  "avfilter_init_str ctx args = ctx\<lparr>initialised := True, init_args := args\<rparr>"

definition music_stage :: "platform \<Rightarrow> oshu_audio \<Rightarrow> stage" where
  "music_stage env audio = (\<lambda>(p, evs).
     asserting (allocates env Filter_graph) (
       let p = p\<lparr>graph := Some \<lparr>links = [], configured = False\<rparr>\<rparr>;
           evs = evs @ [Acquire Filter_graph] in
       asserting (registered env ''abuffer'') (
       asserting (allocates env (Filter ''music'')) (
         let m = new_filter env ''abuffer'' ''music'';
             p = p\<lparr>music := Some m\<rparr>;
             evs = evs @ [Acquire (Filter ''music'')] in
         asserting (allocates env Music_params) (
           let evs = evs @ [Acquire Music_params] in
           andthen (deref (decoder (source audio))) (\<lambda>c.
           andthen (deref (stream (source audio))) (\<lambda>st.
             let music_params = blank_parameters\<lparr>src_format := sample_fmt c,
                   src_time_base := stream_time_base st,
                   src_channel_layout := channel_layout c,
                   src_sample_rate := sample_rate c\<rparr> in
             if answers env (Parameters_set ''music'') \<noteq> 0 then Return (- 1, p, evs)
             else
               let p = p\<lparr>music := Some (m\<lparr>src_params := Some music_params\<rparr>)\<rparr>;
                   evs = evs @ [Release Music_params] in
               if answers env (Init_str ''music'') < 0 then Return (- 1, p, evs)
               else
                 Return (0, p\<lparr>music := map_option (\<lambda>m. avfilter_init_str m None) (music p)\<rparr>,
                   evs))))))))"

text \<open>
  The effect source. The source has \<open>music_params->time_base = ...\<close> here, after
  \<open>music_params\<close> has been freed: a store through the freed pointer, and the time base
  of the effect parameters stays as allocated.
\<close>

definition effect_stage :: "platform \<Rightarrow> oshu_audio \<Rightarrow> stage" where
  "effect_stage env audio = (\<lambda>(p, evs).
     asserting (allocates env (Filter ''effect'')) (
       let e = new_filter env ''abuffer'' ''effect'';
           p = p\<lparr>effect := Some e\<rparr>;
           evs = evs @ [Acquire (Filter ''effect'')] in
       asserting (allocates env Effect_params) (
         let evs = evs @ [Acquire Effect_params, Store Music_params];
             effect_params = blank_parameters\<lparr>src_format := AV_SAMPLE_FMT_FLT,
               src_channel_layout := AV_CH_LAYOUT_STEREO,
               src_sample_rate := freq (device_spec audio)\<rparr> in
         if answers env (Parameters_set ''effect'') \<noteq> 0 then Return (- 1, p, evs)
         else
           let p = p\<lparr>effect := Some (e\<lparr>src_params := Some effect_params\<rparr>)\<rparr>;
               evs = evs @ [Release Effect_params] in
           if answers env (Init_str ''effect'') < 0 then Return (- 1, p, evs)
           else
             Return (0, p\<lparr>effect := map_option (\<lambda>e. avfilter_init_str e None) (effect p)\<rparr>,
               evs))))"

definition mixer_stage :: "platform \<Rightarrow> stage" where
  "mixer_stage env = (\<lambda>(p, evs).
     asserting (registered env ''amix'') (
     asserting (allocates env (Filter ''mixer'')) (
       let x = new_filter env ''amix'' ''mixer'';
           p = p\<lparr>mixer := Some x\<rparr>;
           evs = evs @ [Acquire (Filter ''mixer'')] in
       if answers env (Init_str ''mixer'') < 0 then Return (- 1, p, evs)
       else
         Return (0, p\<lparr>mixer := Some (avfilter_init_str x (Some ''inputs=2:duration=first''))\<rparr>,
           evs))))"

definition converter_stage :: "platform \<Rightarrow> stage" where
  "converter_stage env = (\<lambda>(p, evs).
     asserting (registered env ''aformat'') (
     asserting (allocates env (Filter ''converter'')) (
       let x = new_filter env ''aformat'' ''converter'';
           p = p\<lparr>converter := Some x\<rparr>;
           evs = evs @ [Acquire (Filter ''converter'')] in
       if answers env (Init_str ''converter'') < 0 then Return (- 1, p, evs)
       else
         Return (0, p\<lparr>converter := Some (avfilter_init_str x (Some ''sample_fmts=flt''))\<rparr>,
           evs))))"

definition sink_stage :: "platform \<Rightarrow> stage" where
  "sink_stage env = (\<lambda>(p, evs).
     asserting (registered env ''abuffersink'') (
     asserting (allocates env (Filter ''sink'')) (
       let x = new_filter env ''abuffersink'' ''sink'';
           p = p\<lparr>sink := Some x\<rparr>;
           evs = evs @ [Acquire (Filter ''sink'')] in
       if answers env (Init_str ''sink'') < 0 then Return (- 1, p, evs)
       else Return (0, p\<lparr>sink := Some (avfilter_init_str x None)\<rparr>, evs))))"

text \<open>\<open>avfilter_link(src, srcpad, dst, dstpad)\<close>, by instance names.\<close>

definition avfilter_link ::
  "platform \<Rightarrow> string \<Rightarrow> nat \<Rightarrow> string \<Rightarrow> nat \<Rightarrow> stage" where
  "avfilter_link env src srcpad dst dstpad = (\<lambda>(p, evs).
     if answers env (Link src dst) < 0 then Return (- 1, p, evs)
     else
       Return (0,
         p\<lparr>graph := map_option (\<lambda>g. g\<lparr>links := links g @ [(src, srcpad, dst, dstpad)]\<rparr>) (graph p)\<rparr>,
         evs))"

definition links_stage :: "platform \<Rightarrow> stage" where
  "links_stage env = (\<lambda>st.
     then_stage (avfilter_link env ''music'' 0 ''mixer'' 0 st) (\<lambda>st.
     then_stage (avfilter_link env ''effect'' 0 ''mixer'' 1 st) (\<lambda>st.
     then_stage (avfilter_link env ''mixer'' 0 ''converter'' 0 st)
       (avfilter_link env ''converter'' 0 ''sink'' 0))))"

definition config_stage :: "platform \<Rightarrow> stage" where
  "config_stage env = (\<lambda>(p, evs).
     if answers env Graph_config < 0 then Return (- 1, p, evs)
     else
       let p = p\<lparr>graph := map_option (\<lambda>g. g\<lparr>configured := True\<rparr>) (graph p),
                 sink := map_option (\<lambda>k. k\<lparr>frame_size := sample_buffer_size\<rparr>) (sink p)\<rparr> in
       asserting (allocates env Pipeline_output)
         (Return (0, p\<lparr>output_frame := Some blank_frame\<rparr>, evs @ [Acquire Pipeline_output])))"

definition graph_stages :: "platform \<Rightarrow> oshu_audio \<Rightarrow> stage" where
  "graph_stages env audio = (\<lambda>st.
     then_stage (music_stage env audio st) (\<lambda>st.
     then_stage (effect_stage env audio st) (\<lambda>st.
     then_stage (mixer_stage env st) (\<lambda>st.
     then_stage (converter_stage env st) (\<lambda>st.
     then_stage (sink_stage env st) (\<lambda>st.
     then_stage (links_stage env st) (config_stage env)))))))"

definition create_graph ::
  "platform \<Rightarrow> oshu_audio \<Rightarrow> event list \<Rightarrow> (int \<times> oshu_audio \<times> event list) outcome" where
  "create_graph env audio evs =
     andthen (graph_stages env audio (pipeline audio, evs)) (\<lambda>(rc, p, evs1).
       Return (if rc \<noteq> 0 then - 1 else 0, audio\<lparr>pipeline := p\<rparr>, evs1))"

text \<open>
  \<open>oshu_audio_close\<close>. The handle is the caller's pointer: \<open>None\<close> is \<open>NULL\<close>. The
  device is closed when its id is set, the stream is closed, the context is freed,
  and the handle is cleared. Nothing of the pipeline is released.
\<close>

definition oshu_audio_close ::
  "oshu_audio option \<Rightarrow> event list \<Rightarrow> oshu_audio option \<times> event list" where
  "oshu_audio_close handle evs =
     (case handle of
        None \<Rightarrow> (None, evs)
      | Some audio \<Rightarrow>
          let evs1 = (if device_id audio \<noteq> 0 then evs @ [Release Device] else evs);
              (s, evs2) = oshu_close_stream (source audio) evs1
          in (None, evs2 @ [Release Audio_context]))"

text \<open>A context as \<open>calloc\<close> returns it.\<close>

definition zeroed_pipeline :: oshu_pipeline where
  "zeroed_pipeline =
     \<lparr>graph = None, music = None, effect = None, mixer = None, converter = None,
      sink = None, output_frame = None\<rparr>"

definition zeroed_audio :: oshu_audio where
  "zeroed_audio =
     \<lparr>source = zeroed_stream, pipeline = zeroed_pipeline, device_id = 0,
      device_spec = zeroed_spec, current_timestamp = 0, finished = 0, overlay = None\<rparr>"

text \<open>
  \<open>oshu_audio_open\<close>: the status, the caller's handle and the events. Every \<open>goto fail\<close>
  closes the context. \<open>dump_stream_info\<close> only logs.
\<close>

definition open_failed ::
  "oshu_audio \<Rightarrow> event list \<Rightarrow> (int \<times> oshu_audio option \<times> event list) outcome" where
  "open_failed audio evs = Return (- 1, oshu_audio_close (Some audio) evs)"

definition oshu_audio_open ::
  "platform \<Rightarrow> string \<Rightarrow> event list \<Rightarrow> (int \<times> oshu_audio option \<times> event list) outcome" where
  "oshu_audio_open env url evs =
     (if \<not> allocates env Audio_context then Return (- 1, None, evs)
      else
        andthen (oshu_open_stream env url (source zeroed_audio) (evs @ [Acquire Audio_context]))
          (\<lambda>(rc, s, evs1).
            let a1 = zeroed_audio\<lparr>source := s\<rparr> in
            if rc < 0 then open_failed a1 evs1
            else
              andthen (open_device env a1 evs1) (\<lambda>(rc, a2, evs2).
                if rc < 0 then open_failed a2 evs2
                else
                  andthen (create_graph env a2 evs2) (\<lambda>(rc, a3, evs3).
                    if rc < 0 then open_failed a3 evs3
                    else Return (0, Some a3, evs3)))))"

section \<open>Runs of the callback, and the frames a stream still holds\<close>

text \<open>
  The device calls the callback again and again, each time with a buffer and its
  length. \<open>callbacks\<close> gives the context after each call.
\<close>

fun callbacks :: "oshu_audio \<Rightarrow> (byte list \<times> int) list \<Rightarrow> oshu_audio list outcome" where
  "callbacks audio [] = Return []"
| "callbacks audio ((buffer, len) # calls) =
     andthen (audio_callback audio buffer len) (\<lambda>(a, b).
       andthen (callbacks a calls) (\<lambda>rest. Return (a # rest)))"

text \<open>
  The frames \<open>oshu_next_frame\<close> can still deliver, in order: those waiting in the
  decoder, then those of the pages of the selected stream.
\<close>

fun frames_of :: "(av_failure + AVFrame) list \<Rightarrow> AVFrame list" where
  "frames_of [] = []"
| "frames_of (Inr f # xs) = f # frames_of xs"
| "frames_of (Inl e # xs) = frames_of xs"

fun page_frames :: "int \<Rightarrow> read_result list \<Rightarrow> AVFrame list" where
  "page_frames i [] = []"
| "page_frames i (Page p # rs) =
     (if stream_index p = i then frames_of (yields p) else []) @ page_frames i rs"
| "page_frames i (ReadError e # rs) = page_frames i rs"

fun waiting_frames :: "AVCodecContext option \<Rightarrow> AVFrame list" where
  "waiting_frames None = []"
| "waiting_frames (Some c) = frames_of (pending c)"

fun track_frames :: "AVFormatContext option \<Rightarrow> AVStream option \<Rightarrow> AVFrame list" where
  "track_frames (Some d) (Some st) = page_frames (index st) (pages d)"
| "track_frames d st = []"

definition upcoming_frames :: "oshu_stream \<Rightarrow> AVFrame list" where
  "upcoming_frames s = waiting_frames (decoder s) @ track_frames (demuxer s) (stream s)"

text \<open>
  The track \<open>av_find_best_stream\<close> selects in a container, and the frames the pages of
  that track decode to.
\<close>

definition selected_track :: "AVFormatContext \<Rightarrow> AVStream option" where
  "selected_track d =
     (if 0 \<le> best_stream d \<and> nat (best_stream d) < length (streams d)
      then Some (streams d ! nat (best_stream d)) else None)"

definition source_frames :: "AVFormatContext \<Rightarrow> AVFrame list" where
  "source_frames d = track_frames (Some d) (selected_track d)"

text \<open>
  The positive timestamps among some frames, in order: the ones \<open>next_frame\<close> turns
  into positions.
\<close>

definition stamps :: "AVFrame list \<Rightarrow> int list" where
  "stamps fs = filter (\<lambda>t. 0 < t) (map best_effort_timestamp fs)"

text \<open>
  A context is in order when the time base is not negative, the positive timestamps
  of the frames still to come do not go back, and none of them lies before the
  position the context shows.
\<close>

definition in_order :: "oshu_audio \<Rightarrow> bool" where
  "in_order a \<longleftrightarrow>
     0 \<le> time_base (source a)
     \<and> sorted (stamps (upcoming_frames (source a)))
     \<and> (\<forall>t\<in>set (stamps (upcoming_frames (source a))).
           current_timestamp a \<le> time_base (source a) * real_of_int t)"

text \<open>The position and the finished flag the context shows after each call.\<close>

definition positions :: "oshu_audio \<Rightarrow> (byte list \<times> int) list \<Rightarrow> (real \<times> int) list outcome" where
  "positions a calls =
     andthen (callbacks a calls) (\<lambda>as. Return (map (\<lambda>b. (current_timestamp b, finished b)) as))"

text \<open>
  From one context to a later one of the same run: the time base is the same, some of
  the frames that were to come are gone, and the position is the old one or comes
  from one of the frames that are gone.
\<close>

definition advances :: "oshu_audio \<Rightarrow> oshu_audio \<Rightarrow> bool" where
  "advances a a' \<longleftrightarrow>
     time_base (source a') = time_base (source a)
     \<and> (\<exists>gone. upcoming_frames (source a) = gone @ upcoming_frames (source a')
          \<and> (current_timestamp a' = current_timestamp a
              \<or> (\<exists>f\<in>set gone. 0 < best_effort_timestamp f
                    \<and> current_timestamp a'
                        = time_base (source a) * real_of_int (best_effort_timestamp f))))"

text \<open>Whether a call returned, and whether \<open>oshu_audio_open\<close> succeeds on a platform.\<close>

definition returned :: "'a outcome \<Rightarrow> bool" where
  "returned m = (case m of Return x \<Rightarrow> True | _ \<Rightarrow> False)"

definition opens :: "platform \<Rightarrow> string \<Rightarrow> bool" where
  "opens env url =
     (case oshu_audio_open env url [] of
        Return (rc, Some a, evs) \<Rightarrow> rc = 0
      | _ \<Rightarrow> False)"

text \<open>
  The context a successful \<open>oshu_audio_open\<close> hands to the caller (the zeroed context
  stands in where the call fails).
\<close>

definition opened :: "platform \<Rightarrow> string \<Rightarrow> oshu_audio" where
  "opened env url =
     (case oshu_audio_open env url [] of
        Return (rc, Some a, evs) \<Rightarrow> a
      | _ \<Rightarrow> zeroed_audio)"

text \<open>What \<open>oshu_close_stream\<close> releases, for the pointers that are set.\<close>

definition close_events :: "oshu_stream \<Rightarrow> event list" where
  "close_events s =
     (if frame s \<noteq> None then [Release Stream_frame] else [])
     @ (if decoder s \<noteq> None then [Release Decoder] else [])
     @ (if demuxer s \<noteq> None then [Release Demuxer] else [])"

text \<open>
  The pieces of the filter graph, which \<open>create_graph\<close> acquires; and lists of events
  that, replayed from nothing held, release only what they acquired and leave only
  pieces of the graph held.
\<close>

fun graph_piece :: "resource \<Rightarrow> bool" where
  "graph_piece Filter_graph = True"
| "graph_piece (Filter n) = True"
| "graph_piece Music_params = True"
| "graph_piece Effect_params = True"
| "graph_piece Pipeline_output = True"
| "graph_piece r = False"

definition graph_only :: "event list \<Rightarrow> bool" where
  "graph_only added =
     (case held added [] of None \<Rightarrow> False | Some leaked \<Rightarrow> list_all graph_piece leaked)"

definition graph_step :: "event list \<Rightarrow> (int \<times> oshu_pipeline \<times> event list) outcome \<Rightarrow> bool" where
  "graph_step evs m \<longleftrightarrow>
     (\<forall>rc p evs'. m = Return (rc, p, evs') \<longrightarrow>
        (rc = 0 \<or> rc = - 1) \<and> (\<exists>added. evs' = evs @ added \<and> graph_only added))"

section \<open>Example platforms, containers, streams and contexts\<close>

text \<open>
  A platform on which every allocation and every library call succeeds. The device
  grants the spec it is asked for (the source passes no allowed changes).
\<close>

definition studio :: "AVFormatContext \<Rightarrow> sink_answer list \<Rightarrow> platform" where
  "studio d answers_of_sink =
     \<lparr>allocates = (\<lambda>r. True), answers = (\<lambda>c. 0), media = (\<lambda>url. Inr d),
      registered = (\<lambda>f. True), audio_device = (\<lambda>want. (2, want)),
      graph_trace = answers_of_sink\<rparr>"

text \<open>A stream that is open on a container with nothing in it.\<close>

definition silent_container :: AVFormatContext where
  "silent_container = \<lparr>streams = [], pages = [], best_stream = 0, best_codec = None\<rparr>"

definition exhausted_stream :: oshu_stream where
  "exhausted_stream =
     zeroed_stream\<lparr>demuxer := Some silent_container, decoder := Some fresh_decoder,
       frame := Some blank_frame\<rparr>"

text \<open>
  A track whose first packet is damaged and whose second packet is sound, behind a
  packet of another stream.
\<close>

definition sound_frame :: AVFrame where
  "sound_frame = \<lparr>best_effort_timestamp = 1024, data = [1, 2, 3, 4]\<rparr>"

definition damaged_packet :: AVPacket where
  "damaged_packet = \<lparr>stream_index = 0, send_fails = Some INVALIDDATA, yields = []\<rparr>"

definition sound_packet :: AVPacket where
  "sound_packet = \<lparr>stream_index = 0, send_fails = None, yields = [Inr sound_frame]\<rparr>"

definition video_packet :: AVPacket where
  "video_packet = \<lparr>stream_index = 1, send_fails = None, yields = []\<rparr>"

definition audio_track :: AVStream where
  "audio_track =
     \<lparr>index = 0, stream_time_base = \<lparr>num = 1, den = 44100\<rparr>,
      codecpar = \<lparr>par_sample_fmt = AV_SAMPLE_FMT_S16, par_channel_layout = 4,
        par_channels = 1, par_sample_rate = 44100\<rparr>\<rparr>"

definition damaged_container :: AVFormatContext where
  "damaged_container =
     \<lparr>streams = [audio_track], pages = [Page video_packet, Page damaged_packet, Page sound_packet],
      best_stream = 0, best_codec = Some \<lparr>long_name = ''PCM''\<rparr>\<rparr>"

definition damaged_stream :: oshu_stream where
  "damaged_stream =
     zeroed_stream\<lparr>demuxer := Some damaged_container, stream := Some audio_track,
       decoder := Some fresh_decoder, frame := Some blank_frame\<rparr>"


text \<open>
  A context that has played to the end on a stereo float device, whose silence value
  is 0.
\<close>

definition played_out :: oshu_audio where
  "played_out =
     zeroed_audio\<lparr>device_id := 2,
       device_spec := \<lparr>freq = 44100, format = AUDIO_F32, spec_channels = 2, silence = 0,
         samples = 2048\<rparr>,
       finished := 1\<rparr>"

text \<open>
  A track of three packets, one frame each, on a time base of one second per tick.
  The first frame is the one \<open>oshu_open_stream\<close> decodes.
\<close>

definition ticking_track :: AVStream where
  "ticking_track =
     \<lparr>index = 0, stream_time_base = \<lparr>num = 1, den = 1\<rparr>,
      codecpar = \<lparr>par_sample_fmt = AV_SAMPLE_FMT_S16, par_channel_layout = 4,
        par_channels = 1, par_sample_rate = 44100\<rparr>\<rparr>"

definition frame_at :: "int \<Rightarrow> AVPacket" where
  "frame_at t =
     \<lparr>stream_index = 0, send_fails = None,
      yields = [Inr \<lparr>best_effort_timestamp = t, data = [0, 0, 0, 0]\<rparr>]\<rparr>"

definition track_of :: "int list \<Rightarrow> AVFormatContext" where
  "track_of ts =
     \<lparr>streams = [ticking_track], pages = map (\<lambda>t. Page (frame_at t)) ts, best_stream = 0,
      best_codec = Some \<lparr>long_name = ''PCM''\<rparr>\<rparr>"

text \<open>
  Two calls of the callback, each on a buffer of four bytes; in each the sink first
  asks for more music, then delivers four bytes.
\<close>

definition two_rounds :: "sink_answer list" where
  "two_rounds = [Again 1 0 0, Output [7, 7, 7, 7], Again 1 0 0, Output [7, 7, 7, 7]]"

definition two_calls :: "(byte list \<times> int) list" where
  "two_calls = [([0, 0, 0, 0], 4), ([0, 0, 0, 0], 4)]"

text \<open>
  Three calls; the sink asks for more music, delivers four bytes, and then reports
  the end of the stream.
\<close>

definition run_to_the_end :: "sink_answer list" where
  "run_to_the_end = [Again 1 0 0, Output [7, 7, 7, 7], End_of_stream]"

definition three_calls :: "(byte list \<times> int) list" where
  "three_calls = [([0, 0, 0, 0], 4), ([0, 0, 0, 0], 4), ([0, 0, 0, 0], 4)]"

text \<open>A platform on which everything succeeds but the configuration of the graph.\<close>

definition broken_graph :: platform where
  "broken_graph =
     (studio (track_of [0, 5, 10]) two_rounds)
       \<lparr>answers := (\<lambda>c. if c = Graph_config then AVERROR EINVAL else 0)\<rparr>"

section \<open>One round of \<open>oshu_next_frame\<close>, case by case\<close>

lemma oshu_next_frame_ready:
  "decoder s = Some c \<Longrightarrow> frame s = Some f0 \<Longrightarrow> pending c = Inr f # rest \<Longrightarrow>
   oshu_next_frame s = Return (0, s\<lparr>decoder := Some (c\<lparr>pending := rest\<rparr>), frame := Some f\<rparr>)"
  by (subst oshu_next_frame.simps) (simp add: avcodec_receive_frame_def)

lemma oshu_next_frame_failed:
  "decoder s = Some c \<Longrightarrow> frame s = Some f0 \<Longrightarrow> pending c = Inl e # rest \<Longrightarrow>
   oshu_next_frame s =
     Return (- 1, s\<lparr>decoder := Some (c\<lparr>pending := rest\<rparr>), frame := Some blank_frame\<rparr>)"
  using AVERROR_negative [of e] AVERROR_not_EAGAIN [of e] AVERROR_not_EOF [of e]
  by (subst oshu_next_frame.simps) (simp add: avcodec_receive_frame_def)

lemma oshu_next_frame_drained:
  "decoder s = Some c \<Longrightarrow> frame s = Some f0 \<Longrightarrow> pending c = [] \<Longrightarrow> draining c \<Longrightarrow>
   oshu_next_frame s = Return (AVERROR_EOF, s\<lparr>decoder := Some c, frame := Some blank_frame\<rparr>)"
  by (subst oshu_next_frame.simps)
    (simp add: avcodec_receive_frame_def AVERROR_EOF_def AVERROR_EAGAIN_def)

lemma oshu_next_frame_hungry:
  "decoder s = Some c \<Longrightarrow> frame s = Some f0 \<Longrightarrow> pending c = [] \<Longrightarrow> \<not> draining c \<Longrightarrow>
   oshu_next_frame s =
     (case next_page (s\<lparr>decoder := Some c, frame := Some blank_frame\<rparr>) of
        Return (rc', s2) \<Rightarrow> if rc' < 0 then Return (- 1, s2) else oshu_next_frame s2
      | Fault e \<Rightarrow> Fault e
      | Pending \<Rightarrow> Pending)"
  by (subst oshu_next_frame.simps)
    (simp add: avcodec_receive_frame_def AVERROR_EAGAIN_def)

lemma oshu_next_frame_null:
  "decoder s = None \<or> frame s = None \<Longrightarrow> oshu_next_frame s = Fault NullPointer"
  by (subst oshu_next_frame.simps) (auto split: option.splits)

text \<open>
  Induction along the loop of \<open>oshu_next_frame\<close>: the only round that loops is the one
  where the decoder wants input and \<open>next_page\<close> supplied some.
\<close>

lemma oshu_next_frame_induct [case_names round]:
  assumes step: "\<And>s. (\<And>c f0 rc' s2. decoder s = Some c \<Longrightarrow> frame s = Some f0 \<Longrightarrow> pending c = []
      \<Longrightarrow> \<not> draining c
      \<Longrightarrow> next_page (s\<lparr>decoder := Some c, frame := Some blank_frame\<rparr>) = Return (rc', s2)
      \<Longrightarrow> 0 \<le> rc' \<Longrightarrow> P s2) \<Longrightarrow> P s"
  shows "P s"
proof (induction s rule: measure_induct_rule [where f = remaining])
  case (less s)
  show ?case
  proof (rule step)
    fix c f0 rc' s2
    assume a: "decoder s = Some c" "frame s = Some f0" "pending c = []" "\<not> draining c"
      "next_page (s\<lparr>decoder := Some c, frame := Some blank_frame\<rparr>) = Return (rc', s2)"
      "0 \<le> rc'"
    let ?s1 = "s\<lparr>decoder := Some c, frame := Some blank_frame\<rparr>"
    from next_page_remaining [OF a(5,6), of c] a(4) have "remaining s2 < remaining ?s1"
      by simp
    also have "remaining ?s1 = remaining s"
      using a(1) by (simp add: remaining_def)
    finally show "P s2"
      by (rule less.IH)
  qed
qed


section \<open>The end of the stream is final\<close>

lemma oshu_next_frame_eof_state:
  "oshu_next_frame s = Return (AVERROR_EOF, s') \<Longrightarrow>
   \<exists>c. decoder s' = Some c \<and> pending c = [] \<and> draining c \<and> frame s' = Some blank_frame"
proof (induction s rule: oshu_next_frame_induct)
  case (round s)
  from round.prems obtain c f0 where c: "decoder s = Some c" and f0: "frame s = Some f0"
    by (cases "decoder s"; cases "frame s") (simp_all add: oshu_next_frame_null)
  show ?case
  proof (cases "pending c")
    case Nil
    show ?thesis
    proof (cases "draining c")
      case True
      with round.prems c f0 Nil show ?thesis
        by (auto simp: oshu_next_frame_drained)
    next
      case False
      with round.prems c f0 Nil obtain rc' s2
        where np: "next_page (s\<lparr>decoder := Some c, frame := Some blank_frame\<rparr>) = Return (rc', s2)"
          "0 \<le> rc'" "oshu_next_frame s2 = Return (AVERROR_EOF, s')"
        by (auto simp: oshu_next_frame_hungry AVERROR_EOF_def split: outcome.splits if_splits)
      from round.IH [OF c f0 Nil False np] show ?thesis .
    qed
  next
    case (Cons x rest)
    with round.prems c f0 show ?thesis
      by (cases x) (simp_all add: oshu_next_frame_ready oshu_next_frame_failed AVERROR_EOF_def)
  qed
qed

text \<open>
  C4. Once \<open>oshu_next_frame\<close> has returned \<open>AVERROR_EOF\<close>, the next call on the stream
  it left returns \<open>AVERROR_EOF\<close> again and leaves the stream as it is; so does every
  later call. (The stream has no end-of-stream flag of its own: the flushed decoder
  keeps answering \<open>AVERROR_EOF\<close>.)
\<close>

theorem end_of_stream_is_terminal:
  assumes "oshu_next_frame s = Return (AVERROR_EOF, s')"
  shows "oshu_next_frame s' = Return (AVERROR_EOF, s')"
proof -
  from oshu_next_frame_eof_state [OF assms] obtain c
    where c: "decoder s' = Some c" "pending c = []" "draining c" "frame s' = Some blank_frame"
    by blast
  then have "oshu_next_frame s' = Return (AVERROR_EOF, s'\<lparr>decoder := Some c, frame := Some blank_frame\<rparr>)"
    by (simp add: oshu_next_frame_drained)
  moreover from c have "s'\<lparr>decoder := Some c, frame := Some blank_frame\<rparr> = s'"
    by (cases s') simp
  ultimately show ?thesis
    by simp
qed

lemma exhausted_stream_eof:
  "oshu_next_frame exhausted_stream =
     Return (AVERROR_EOF,
       exhausted_stream\<lparr>decoder := Some (fresh_decoder\<lparr>draining := True\<rparr>)\<rparr>)"
  by (simp add: exhausted_stream_def zeroed_stream_def silent_container_def fresh_decoder_def
      oshu_next_frame_hungry oshu_next_frame_drained next_page_def next_page_loop_eof
      avcodec_send_packet_def)

theorem end_of_stream_is_terminal_witness:
  "oshu_next_frame exhausted_stream =
     Return (AVERROR_EOF, exhausted_stream\<lparr>decoder := Some (fresh_decoder\<lparr>draining := True\<rparr>)\<rparr>)
   \<and> oshu_next_frame (exhausted_stream\<lparr>decoder := Some (fresh_decoder\<lparr>draining := True\<rparr>)\<rparr>) =
     Return (AVERROR_EOF, exhausted_stream\<lparr>decoder := Some (fresh_decoder\<lparr>draining := True\<rparr>)\<rparr>)"
  using end_of_stream_is_terminal [OF exhausted_stream_eof] exhausted_stream_eof
  by simp

section \<open>A packet the decoder rejects\<close>

lemma next_page_loop_packet [simp]: "next_page_loop (s\<lparr>packet := p\<rparr>) = next_page_loop s"
  by (subst next_page_loop.simps, subst (2) next_page_loop.simps)
    (simp add: Let_def split: option.split prod.split)

lemma next_page_loop_skips:
  "demuxer s = Some d \<Longrightarrow> stream s = Some st \<Longrightarrow> pages d = map Page skipped @ rest \<Longrightarrow>
   \<forall>q\<in>set skipped. stream_index q \<noteq> index st \<Longrightarrow>
   next_page_loop s = next_page_loop (s\<lparr>demuxer := Some (d\<lparr>pages := rest\<rparr>)\<rparr>)"
proof (induction skipped arbitrary: s d)
  case Nil
  then have "s\<lparr>demuxer := Some (d\<lparr>pages := rest\<rparr>)\<rparr> = s"
    by (cases s) simp
  then show ?case
    by simp
next
  case (Cons q skipped)
  let ?s1 = "s\<lparr>demuxer := Some (d\<lparr>pages := map Page skipped @ rest\<rparr>)\<rparr>"
  from Cons.prems have "next_page_loop s = next_page_loop ?s1"
    by (simp add: next_page_loop_page)
  also from Cons.prems have "\<dots> = next_page_loop (?s1\<lparr>demuxer := Some (d\<lparr>pages := map Page skipped @ rest, pages := rest\<rparr>)\<rparr>)"
    by (intro Cons.IH) simp_all
  finally show ?case
    by simp
qed

lemma rejected_packet_aborts:
  assumes "decoder s = Some c" "pending c = []" "\<not> draining c" "frame s = Some f0"
    and "demuxer s = Some d" "stream s = Some st"
    and "pages d = map Page skipped @ Page p # rest"
    and "\<forall>q\<in>set skipped. stream_index q \<noteq> index st"
    and "stream_index p = index st" "send_fails p = Some e"
  shows "oshu_next_frame s =
     Return (- 1, s\<lparr>demuxer := Some (d\<lparr>pages := rest\<rparr>), packet := blank_packet,
       frame := Some blank_frame\<rparr>)"
proof -
  let ?s1 = "s\<lparr>decoder := Some c, frame := Some blank_frame\<rparr>"
  let ?s2 = "?s1\<lparr>demuxer := Some (d\<lparr>pages := Page p # rest\<rparr>)\<rparr>"
  have "next_page_loop ?s1 = next_page_loop ?s2"
    using assms by (intro next_page_loop_skips [where st = st and skipped = skipped]) simp_all
  also have "\<dots> = Return (AVERROR e, ?s2\<lparr>demuxer := Some (d\<lparr>pages := rest\<rparr>), packet := p\<rparr>)"
    using assms by (simp add: next_page_loop_page avcodec_send_packet_def)
  finally have "next_page ?s1 =
      Return (- 1, ?s2\<lparr>demuxer := Some (d\<lparr>pages := rest\<rparr>), packet := blank_packet\<rparr>)"
    using AVERROR_negative [of e] by (simp add: next_page_def)
  with assms have "oshu_next_frame s =
      Return (- 1, ?s2\<lparr>demuxer := Some (d\<lparr>pages := rest\<rparr>), packet := blank_packet\<rparr>)"
    by (simp add: oshu_next_frame_hungry)
  moreover from assms(1) have "?s2\<lparr>demuxer := Some (d\<lparr>pages := rest\<rparr>), packet := blank_packet\<rparr>
      = s\<lparr>demuxer := Some (d\<lparr>pages := rest\<rparr>), packet := blank_packet, frame := Some blank_frame\<rparr>"
    by (cases s) simp
  ultimately show ?thesis
    by simp
qed

text \<open>
  C3, as the code has it. When the decoder wants input, the loop of \<open>next_page\<close> skips
  the packets of other streams and sends the first packet of the selected stream; if
  the decoder rejects that packet, the packet is discarded and \<open>oshu_next_frame\<close>
  returns \<open>- 1\<close> at once, with the following packets still unread. The code does not tell
  a transient failure from a fatal one.
\<close>

theorem rejected_packet_ends_the_call:
  assumes "decoder s = Some c" "pending c = []" "\<not> draining c" "frame s = Some f0"
    and "demuxer s = Some d" "stream s = Some st"
    and "pages d = map Page skipped @ Page p # rest"
    and "\<forall>q\<in>set skipped. stream_index q \<noteq> index st"
    and "stream_index p = index st" "send_fails p = Some e"
  shows "oshu_next_frame s =
     Return (- 1, s\<lparr>demuxer := Some (d\<lparr>pages := rest\<rparr>), packet := blank_packet,
       frame := Some blank_frame\<rparr>)"
  using assms by (rule rejected_packet_aborts)

theorem rejected_packet_ends_the_call_witness:
  "oshu_next_frame damaged_stream =
     Return (- 1, damaged_stream\<lparr>demuxer := Some (damaged_container\<lparr>pages := [Page sound_packet]\<rparr>),
       packet := blank_packet, frame := Some blank_frame\<rparr>)"
  by (rule rejected_packet_ends_the_call [where c = fresh_decoder and st = audio_track
        and skipped = "[video_packet]" and p = damaged_packet and e = INVALIDDATA])
    (simp_all add: damaged_stream_def zeroed_stream_def damaged_container_def fresh_decoder_def
      audio_track_def video_packet_def damaged_packet_def)

text \<open>
  Against C3 as stated: the damaged packet is not skipped in favour of the sound one.
  The call returns \<open>- 1\<close>, not the sound frame, and the sound packet is still unread.
\<close>

theorem damaged_packet_is_not_skipped:
  "oshu_next_frame damaged_stream =
     Return (- 1, damaged_stream\<lparr>demuxer := Some (damaged_container\<lparr>pages := [Page sound_packet]\<rparr>),
       packet := blank_packet, frame := Some blank_frame\<rparr>)
   \<and> oshu_next_frame damaged_stream \<noteq>
     Return (0, damaged_stream\<lparr>demuxer := Some (damaged_container\<lparr>pages := []\<rparr>),
       decoder := Some fresh_decoder, packet := blank_packet, frame := Some sound_frame\<rparr>)"
proof -
  have "oshu_next_frame damaged_stream =
     Return (- 1, damaged_stream\<lparr>demuxer := Some (damaged_container\<lparr>pages := [Page sound_packet]\<rparr>),
       packet := blank_packet, frame := Some blank_frame\<rparr>)"
    by (rule rejected_packet_aborts [where c = fresh_decoder and st = audio_track
          and skipped = "[video_packet]" and p = damaged_packet and e = INVALIDDATA])
      (simp_all add: damaged_stream_def zeroed_stream_def damaged_container_def fresh_decoder_def
        audio_track_def video_packet_def damaged_packet_def)
  then show ?thesis
    by simp
qed

section \<open>What a call of \<open>oshu_next_frame\<close> delivers\<close>

lemma frames_of_append [simp]: "frames_of (xs @ ys) = frames_of xs @ frames_of ys"
  by (induction xs rule: frames_of.induct) simp_all

lemma next_page_loop_upcoming:
  "demuxer s = Some d \<Longrightarrow> pages d = ps \<Longrightarrow> next_page_loop s = Return (rc, s') \<Longrightarrow>
   decoder s = Some c \<Longrightarrow> pending c = [] \<Longrightarrow> \<not> draining c \<Longrightarrow>
   (\<exists>gone. upcoming_frames s = gone @ upcoming_frames s' \<and> (0 \<le> rc \<longrightarrow> gone = []))
   \<and> time_base s' = time_base s \<and> stream s' = stream s \<and> codec s' = codec s
   \<and> frame s' = frame s \<and> decoder s' \<noteq> None \<and> demuxer s' \<noteq> None"
proof (induction ps arbitrary: s d)
  case Nil
  then show ?case
    by (auto simp: next_page_loop_eof avcodec_send_packet_def upcoming_frames_def)
next
  case (Cons r rest)
  show ?case
  proof (cases r)
    case (ReadError e)
    with Cons.prems AVERROR_negative [of e] show ?thesis
      by (cases "stream s") (auto simp: next_page_loop_read_error upcoming_frames_def)
  next
    case (Page p)
    let ?s2 = "s\<lparr>demuxer := Some (d\<lparr>pages := rest\<rparr>), packet := blank_packet\<rparr>"
    from Cons.prems Page obtain st where st: "stream s = Some st"
      by (auto simp: next_page_loop_page split: option.splits)
    show ?thesis
    proof (cases "stream_index p = index st")
      case True
      show ?thesis
      proof (cases "send_fails p")
        case None
        with Cons.prems Page st True show ?thesis
          by (auto simp: next_page_loop_page avcodec_send_packet_def upcoming_frames_def)
      next
        case (Some e)
        with Cons.prems Page st True AVERROR_negative [of e] show ?thesis
          by (auto simp: next_page_loop_page avcodec_send_packet_def upcoming_frames_def)
      qed
    next
      case False
      with Cons.prems Page st have run: "next_page_loop ?s2 = Return (rc, s')"
        by (simp add: next_page_loop_page)
      have "(\<exists>gone. upcoming_frames ?s2 = gone @ upcoming_frames s' \<and> (0 \<le> rc \<longrightarrow> gone = []))
          \<and> time_base s' = time_base ?s2 \<and> stream s' = stream ?s2 \<and> codec s' = codec ?s2
          \<and> frame s' = frame ?s2 \<and> decoder s' \<noteq> None \<and> demuxer s' \<noteq> None"
        by (rule Cons.IH [OF _ _ run, of "d\<lparr>pages := rest\<rparr>"]) (simp_all add: Cons.prems)
      moreover have "upcoming_frames ?s2 = upcoming_frames s"
        using Cons.prems Page st False by (simp add: upcoming_frames_def)
      ultimately show ?thesis
        by simp
    qed
  qed
qed

lemma upcoming_frames_packet [simp]: "upcoming_frames (s\<lparr>packet := p\<rparr>) = upcoming_frames s"
  by (simp add: upcoming_frames_def)

lemma upcoming_frames_frame [simp]: "upcoming_frames (s\<lparr>frame := f\<rparr>) = upcoming_frames s"
  by (simp add: upcoming_frames_def)

lemma next_page_upcoming:
  assumes "next_page s = Return (rc, s')" "decoder s = Some c" "pending c = []" "\<not> draining c"
  shows "(\<exists>gone. upcoming_frames s = gone @ upcoming_frames s' \<and> (0 \<le> rc \<longrightarrow> gone = []))
   \<and> time_base s' = time_base s \<and> stream s' = stream s \<and> codec s' = codec s
   \<and> frame s' = frame s \<and> decoder s' \<noteq> None \<and> demuxer s' \<noteq> None \<and> (rc = 0 \<or> rc = - 1)"
proof -
  from assms(1) obtain rc1 s1 where run: "next_page_loop s = Return (rc1, s1)"
    and out: "s' = s1\<lparr>packet := blank_packet\<rparr>" "rc = (if rc1 < 0 then - 1 else 0)"
    by (auto simp: next_page_def andthen_Return_iff Let_def split: if_splits)
  from run obtain d where d: "demuxer s = Some d"
    by (cases "demuxer s") (simp_all add: next_page_loop_null)
  from next_page_loop_upcoming [OF d refl run assms(2-4)] out show ?thesis
    by (auto split: if_splits)
qed

text \<open>
  A call returns 0, \<open>AVERROR_EOF\<close> or \<open>- 1\<close>. With 0 the stream's frame is the first of
  the frames the stream still held, and the rest are still held; otherwise some of
  them may be gone. The track's identity and the pointers stay.
\<close>

lemma oshu_next_frame_delivers:
  "oshu_next_frame s = Return (rc, s') \<Longrightarrow>
   (rc = 0 \<or> rc = AVERROR_EOF \<or> rc = - 1)
   \<and> (rc = 0 \<longrightarrow> (\<exists>f. frame s' = Some f \<and> upcoming_frames s = f # upcoming_frames s'))
   \<and> (\<exists>gone. upcoming_frames s = gone @ upcoming_frames s')
   \<and> time_base s' = time_base s \<and> stream s' = stream s \<and> codec s' = codec s
   \<and> (demuxer s' = None \<longleftrightarrow> demuxer s = None) \<and> decoder s' \<noteq> None \<and> frame s' \<noteq> None"
proof (induction s rule: oshu_next_frame_induct)
  case (round s)
  from round.prems obtain c f0 where c: "decoder s = Some c" and f0: "frame s = Some f0"
    by (cases "decoder s"; cases "frame s") (simp_all add: oshu_next_frame_null)
  show ?case
  proof (cases "pending c")
    case Nil
    show ?thesis
    proof (cases "draining c")
      case True
      have "upcoming_frames (s\<lparr>decoder := Some c, frame := Some blank_frame\<rparr>)
          = [] @ upcoming_frames s"
        using c by (simp add: upcoming_frames_def)
      moreover have "AVERROR_EOF \<noteq> 0"
        by (simp add: AVERROR_EOF_def)
      ultimately show ?thesis
        using round.prems c f0 Nil True by (auto simp: oshu_next_frame_drained)
    next
      case False
      let ?s1 = "s\<lparr>decoder := Some c, frame := Some blank_frame\<rparr>"
      from round.prems c f0 Nil False obtain rc' s2
        where np: "next_page ?s1 = Return (rc', s2)"
          and rest: "if rc' < 0 then rc = - 1 \<and> s' = s2 else oshu_next_frame s2 = Return (rc, s')"
        by (auto simp: oshu_next_frame_hungry split: outcome.splits if_splits)
      have same: "upcoming_frames ?s1 = upcoming_frames s"
        using c by (simp add: upcoming_frames_def)
      from next_page_upcoming [OF np, of c] Nil False
      have page: "(\<exists>gone. upcoming_frames ?s1 = gone @ upcoming_frames s2 \<and> (0 \<le> rc' \<longrightarrow> gone = []))
          \<and> time_base s2 = time_base s \<and> stream s2 = stream s \<and> codec s2 = codec s
          \<and> frame s2 = Some blank_frame \<and> decoder s2 \<noteq> None \<and> demuxer s2 \<noteq> None
          \<and> (rc' = 0 \<or> rc' = - 1)"
        by simp
      from np page c have dm: "demuxer s \<noteq> None"
        by (cases "demuxer s") (simp_all add: next_page_def next_page_loop_null)
      show ?thesis
      proof (cases "rc' < 0")
        case True
        with rest page same dm show ?thesis
          by auto
      next
        case False
        with rest have run: "oshu_next_frame s2 = Return (rc, s')"
          by simp
        from False have "0 \<le> rc'"
          by simp
        from round.IH [OF c f0 Nil \<open>\<not> draining c\<close> np this run] page same dm False
        show ?thesis
          by auto
      qed
    qed
  next
    case (Cons x rest)
    have pop: "upcoming_frames s = frames_of [x]
        @ upcoming_frames (s\<lparr>decoder := Some (c\<lparr>pending := rest\<rparr>), frame := f\<rparr>)" for f
      using c Cons frames_of_append [of "[x]" rest] by (simp add: upcoming_frames_def)
    show ?thesis
    proof (cases x)
      case (Inl e)
      with round.prems c f0 Cons pop [of "Some blank_frame"] show ?thesis
        by (auto simp: oshu_next_frame_failed)
    next
      case (Inr f)
      with round.prems c f0 Cons pop [of "Some f"] show ?thesis
        by (auto simp: oshu_next_frame_ready intro: exI [of _ "[f]"])
    qed
  qed
qed

section \<open>Opening a stream\<close>

lemma held_append:
  "held (xs @ ys) live = (case held xs live of None \<Rightarrow> None | Some l \<Rightarrow> held ys l)"
  by (induction xs live rule: held.induct) simp_all

lemma open_demuxer_result:
  assumes "open_demuxer env url s evs = Return (rc, s1, evs1)"
  shows "decoder s1 = decoder s \<and> frame s1 = frame s
    \<and> (rc = 0 \<and> evs1 = evs @ [Acquire Demuxer]
          \<and> (\<exists>d st. media env url = Inr d \<and> demuxer s1 = Some d \<and> selected_track d = Some st
                \<and> stream s1 = Some st)
        \<or> rc = - 1 \<and> (demuxer s1 = None \<and> evs1 = evs
             \<or> demuxer s1 \<noteq> None \<and> evs1 = evs @ [Acquire Demuxer]))"
  using assms
  by (cases "media env url")
    (auto simp: open_demuxer_def Let_def selected_track_def split: if_splits)

lemma open_decoder_result:
  assumes "open_decoder env s evs = Return (rc, s1, evs1)" "frame s = None"
  shows "demuxer s1 = demuxer s \<and> stream s1 = stream s
    \<and> (rc = 0 \<and> evs1 = evs @ [Acquire Decoder, Acquire Stream_frame]
          \<and> frame s1 = Some blank_frame
          \<and> (\<exists>c. decoder s1 = Some c \<and> pending c = [] \<and> \<not> draining c)
        \<or> rc = - 1 \<and> evs1 = evs @ [Acquire Decoder] \<and> frame s1 = None \<and> decoder s1 \<noteq> None)"
  using assms
  by (auto simp: open_decoder_def Let_def andthen_Return_iff deref_Return_iff
      avcodec_parameters_to_context_def fresh_decoder_def split: if_splits)

lemma oshu_close_stream_result:
  "oshu_close_stream s evs = (s\<lparr>frame := None, decoder := None, demuxer := None\<rparr>, evs @ close_events s)"
  by (cases s) (simp add: oshu_close_stream_def close_events_def)

lemma oshu_open_stream_result:
  assumes "oshu_open_stream env url zeroed_stream evs = Return (rc, s, evs')"
  shows "(rc = 0 \<or> rc = - 1)
    \<and> (rc = 0 \<longrightarrow>
         (\<exists>d f. media env url = Inr d \<and> demuxer s \<noteq> None \<and> decoder s \<noteq> None
            \<and> stream s = selected_track d \<and> stream s \<noteq> None
            \<and> frame s = Some f \<and> source_frames d = f # upcoming_frames s)
         \<and> (\<exists>added. evs' = evs @ added
              \<and> (\<forall>live. held added live = Some (Stream_frame # Decoder # Demuxer # live))))
    \<and> (rc = - 1 \<longrightarrow>
         demuxer s = None \<and> decoder s = None \<and> frame s = None
         \<and> (\<exists>added. evs' = evs @ added \<and> (\<forall>live. held added live = Some live)))"
proof -
  from assms obtain rc1 s1 evs1
    where dm: "open_demuxer env url zeroed_stream evs = Return (rc1, s1, evs1)"
      and k1: "(if rc1 < 0 then Return (- 1, oshu_close_stream s1 evs1)
          else andthen (open_decoder env s1 evs1) (\<lambda>(rc2, s2, evs2).
            if rc2 < 0 then Return (- 1, oshu_close_stream s2 evs2)
            else andthen (oshu_next_frame s2) (\<lambda>(rc3, s3).
              if rc3 < 0 then Return (- 1, oshu_close_stream s3 evs2)
              else Return (0, s3, evs2)))) = Return (rc, s, evs')"
    by (auto simp: oshu_open_stream_def andthen_Return_iff)
  note r1 = open_demuxer_result [OF dm]
  have z: "decoder zeroed_stream = None" "frame zeroed_stream = None"
    by (simp_all add: zeroed_stream_def)
  show ?thesis
  proof (cases "rc1 < 0")
    case True
    with k1 r1 z show ?thesis
      by (auto simp: oshu_close_stream_result close_events_def)
  next
    case False
    with r1 obtain d st where d: "media env url = Inr d" "demuxer s1 = Some d"
        "selected_track d = Some st" "stream s1 = Some st" "evs1 = evs @ [Acquire Demuxer]"
      and s1: "decoder s1 = None" "frame s1 = None"
      using z by auto
    from False k1 obtain rc2 s2 evs2
      where dc: "open_decoder env s1 evs1 = Return (rc2, s2, evs2)"
        and k2: "(if rc2 < 0 then Return (- 1, oshu_close_stream s2 evs2)
            else andthen (oshu_next_frame s2) (\<lambda>(rc3, s3).
              if rc3 < 0 then Return (- 1, oshu_close_stream s3 evs2)
              else Return (0, s3, evs2))) = Return (rc, s, evs')"
      by (auto simp: andthen_Return_iff)
    note r2 = open_decoder_result [OF dc s1(2)]
    show ?thesis
    proof (cases "rc2 < 0")
      case True
      with k2 r2 d show ?thesis
        by (auto simp: oshu_close_stream_result close_events_def)
    next
      case False
      with r2 obtain c where c: "decoder s2 = Some c" "pending c = []" "\<not> draining c"
          "frame s2 = Some blank_frame" "evs2 = evs1 @ [Acquire Decoder, Acquire Stream_frame]"
          "demuxer s2 = Some d" "stream s2 = Some st"
        using d by auto
      from False k2 obtain rc3 s3
        where nf: "oshu_next_frame s2 = Return (rc3, s3)"
          and k3: "(if rc3 < 0 then Return (- 1, oshu_close_stream s3 evs2)
              else Return (0, s3, evs2)) = Return (rc, s, evs')"
        by (auto simp: andthen_Return_iff)
      note r3 = oshu_next_frame_delivers [OF nf]
      have up: "upcoming_frames s2 = source_frames d"
        using c d by (simp add: upcoming_frames_def source_frames_def)
      show ?thesis
      proof (cases "rc3 < 0")
        case True
        with k3 r3 c d show ?thesis
          by (auto simp: oshu_close_stream_result close_events_def)
      next
        case False
        with r3 have "rc3 = 0"
          by (auto simp: AVERROR_EOF_def)
        with k3 r3 c d up show ?thesis
          by auto
      qed
    qed
  qed
qed

lemma next_page_loop_returns:
  "demuxer s = Some d \<Longrightarrow> pages d = ps \<Longrightarrow> decoder s \<noteq> None \<Longrightarrow> stream s \<noteq> None \<Longrightarrow>
   \<exists>rc s'. next_page_loop s = Return (rc, s')"
proof (induction ps arbitrary: s d)
  case Nil
  then show ?case
    by (auto simp: next_page_loop_eof)
next
  case (Cons r rest)
  show ?case
  proof (cases r)
    case (ReadError e)
    with Cons.prems show ?thesis
      by (simp add: next_page_loop_read_error)
  next
    case (Page p)
    let ?s2 = "s\<lparr>demuxer := Some (d\<lparr>pages := rest\<rparr>), packet := blank_packet\<rparr>"
    have "\<exists>rc s'. next_page_loop ?s2 = Return (rc, s')"
      by (rule Cons.IH [of _ "d\<lparr>pages := rest\<rparr>"]) (simp_all add: Cons.prems)
    with Cons.prems Page show ?thesis
      by (auto simp: next_page_loop_page)
  qed
qed

lemma next_page_returns:
  assumes "demuxer s \<noteq> None" "decoder s \<noteq> None" "stream s \<noteq> None"
  shows "\<exists>rc s'. next_page s = Return (rc, s')"
proof -
  from assms(1) obtain d where "demuxer s = Some d"
    by auto
  from next_page_loop_returns [OF this refl assms(2,3)] show ?thesis
    by (auto simp: next_page_def Let_def)
qed

text \<open>On a stream whose pointers are all set, \<open>oshu_next_frame\<close> returns.\<close>

lemma oshu_next_frame_returns:
  "decoder s \<noteq> None \<Longrightarrow> frame s \<noteq> None \<Longrightarrow> demuxer s \<noteq> None \<Longrightarrow> stream s \<noteq> None \<Longrightarrow>
   \<exists>rc s'. oshu_next_frame s = Return (rc, s')"
proof (induction s rule: oshu_next_frame_induct)
  case (round s)
  from round.prems obtain c f0 where c: "decoder s = Some c" and f0: "frame s = Some f0"
    by auto
  show ?case
  proof (cases "pending c")
    case Nil
    show ?thesis
    proof (cases "draining c")
      case True
      with c f0 Nil show ?thesis
        by (simp add: oshu_next_frame_drained)
    next
      case False
      let ?s1 = "s\<lparr>decoder := Some c, frame := Some blank_frame\<rparr>"
      from next_page_returns [of ?s1] round.prems obtain rc' s2
        where np: "next_page ?s1 = Return (rc', s2)"
        by auto
      show ?thesis
      proof (cases "rc' < 0")
        case True
        with c f0 Nil \<open>\<not> draining c\<close> np show ?thesis
          by (simp add: oshu_next_frame_hungry)
      next
        case False
        then have rc': "0 \<le> rc'"
          by simp
        from next_page_upcoming [OF np, of c] Nil \<open>\<not> draining c\<close> round.prems
        have "decoder s2 \<noteq> None" "frame s2 \<noteq> None" "demuxer s2 \<noteq> None" "stream s2 \<noteq> None"
          by simp_all
        from round.IH [OF c f0 Nil \<open>\<not> draining c\<close> np rc' this]
        show ?thesis
          using c f0 Nil \<open>\<not> draining c\<close> np False by (simp add: oshu_next_frame_hungry)
      qed
    qed
  next
    case (Cons x rest)
    with c f0 show ?thesis
      by (cases x) (simp_all add: oshu_next_frame_ready oshu_next_frame_failed)
  qed
qed

lemma oshu_open_stream_returns:
  assumes "allocates env Decoder"
    and "\<And>d. media env url = Inr d \<Longrightarrow> best_stream d < int (length (streams d))"
  shows "\<exists>rc s evs'. oshu_open_stream env url zeroed_stream evs = Return (rc, s, evs')"
proof (cases "media env url")
  case (Inl e)
  then show ?thesis
    by (simp add: oshu_open_stream_def open_demuxer_def oshu_close_stream_result)
next
  case (Inr d)
  with assms(2) have "open_demuxer env url zeroed_stream evs \<noteq> Fault OutOfBounds"
    by (auto simp: open_demuxer_def Let_def)
  moreover have "open_demuxer env url zeroed_stream evs \<noteq> Fault NullPointer"
      "open_demuxer env url zeroed_stream evs \<noteq> Fault AssertionFailed"
      "open_demuxer env url zeroed_stream evs \<noteq> Pending"
    using Inr by (auto simp: open_demuxer_def Let_def)
  ultimately obtain rc1 s1 evs1
    where dm: "open_demuxer env url zeroed_stream evs = Return (rc1, s1, evs1)"
    by (cases "open_demuxer env url zeroed_stream evs" rule: outcome.exhaust)
      (auto intro: fault.exhaust)
  note r1 = open_demuxer_result [OF dm]
  show ?thesis
  proof (cases "rc1 < 0")
    case True
    with dm show ?thesis
      by (simp add: oshu_open_stream_def oshu_close_stream_result)
  next
    case False
    with r1 obtain st where st: "stream s1 = Some st" "demuxer s1 \<noteq> None"
      by auto
    with assms(1) have "\<exists>rc2 s2 evs2. open_decoder env s1 evs1 = Return (rc2, s2, evs2)"
      by (simp add: open_decoder_def Let_def)
    then obtain rc2 s2 evs2
      where dc: "open_decoder env s1 evs1 = Return (rc2, s2, evs2)"
      by blast
    from r1 have "frame s1 = None"
      by (simp add: zeroed_stream_def)
    note r2 = open_decoder_result [OF dc this]
    show ?thesis
    proof (cases "rc2 < 0")
      case True
      with dm dc \<open>\<not> rc1 < 0\<close> show ?thesis
        by (simp add: oshu_open_stream_def oshu_close_stream_result)
    next
      case False
      with r2 st have "decoder s2 \<noteq> None" "frame s2 \<noteq> None" "demuxer s2 \<noteq> None"
          "stream s2 \<noteq> None"
        by auto
      from oshu_next_frame_returns [OF this] obtain rc3 s3
        where "oshu_next_frame s2 = Return (rc3, s3)"
        by auto
      with dm dc \<open>\<not> rc1 < 0\<close> False show ?thesis
        by (simp add: oshu_open_stream_def oshu_close_stream_result)
    qed
  qed
qed



section \<open>The callback on a finished context\<close>

lemma audio_callback_finished:
  "finished audio \<noteq> 0 \<Longrightarrow>
   audio_callback audio buffer len =
     andthen (memset buffer len (unat (silence (device_spec audio)))) (\<lambda>b. Return (audio, b))"
  by (subst audio_callback.simps) simp

text \<open>
  C1 asks that the callback fill the whole buffer with the silence value once the
  context is finished, or when the sink fails. The call is
  \<open>memset(buffer, len, silence)\<close>: it stores \<open>silence\<close> bytes of value \<open>len\<close>. With a
  silence value of 0 it stores nothing, and the device buffer keeps what it held: a
  buffer of four bytes \<open>1, 2, 3, 4\<close> comes back as it was, on the finished context and
  on a freshly opened context whose sink fails, where four bytes of silence are
  \<open>0, 0, 0, 0\<close>.
\<close>

theorem finished_callback_leaves_the_buffer:
  "audio_callback played_out [1, 2, 3, 4] 4 = Return (played_out, [1, 2, 3, 4])
   \<and> andthen (audio_callback (opened (studio (track_of [0, 5, 10]) [Failed EIO]) ''song.ogg'')
         [1, 2, 3, 4] 4) (\<lambda>(a, b). Return (finished a, silence (device_spec a), b))
       = Return (0, 0, [1, 2, 3, 4])
   \<and> replicate 4 (silence (device_spec played_out)) = [0, 0, 0, 0]"
proof (intro conjI)
  show "audio_callback played_out [1, 2, 3, 4] 4 = Return (played_out, [1, 2, 3, 4])"
    by (simp add: audio_callback_finished played_out_def zeroed_audio_def memset_def)
  show "andthen (audio_callback (opened (studio (track_of [0, 5, 10]) [Failed EIO]) ''song.ogg'')
         [1, 2, 3, 4] 4) (\<lambda>(a, b). Return (finished a, silence (device_spec a), b))
       = Return (0, 0, [1, 2, 3, 4])"
    by code_simp
  show "replicate 4 (silence (device_spec played_out)) = [0, 0, 0, 0]"
    by (simp add: played_out_def numeral_eq_Suc)
qed

section \<open>Closing a context\<close>

lemma oshu_audio_close_result:
  "oshu_audio_close (Some audio) evs =
     (None, evs @ (if device_id audio \<noteq> 0 then [Release Device] else [])
        @ close_events (source audio) @ [Release Audio_context])"
  by (simp add: oshu_audio_close_def oshu_close_stream_result)

text \<open>
  C8. \<open>oshu_audio_close\<close> on a handle that is set closes the device (when its id is
  set), then releases the frame, the decoder and the demuxer of the stream (each when
  its pointer is set), then frees the context, and clears the handle. On a cleared
  handle it changes nothing and releases nothing. So closing twice is closing once.
\<close>

theorem close_then_close_is_close:
  "oshu_audio_close (Some audio) evs =
     (None, evs @ (if device_id audio \<noteq> 0 then [Release Device] else [])
        @ (if frame (source audio) \<noteq> None then [Release Stream_frame] else [])
        @ (if decoder (source audio) \<noteq> None then [Release Decoder] else [])
        @ (if demuxer (source audio) \<noteq> None then [Release Demuxer] else [])
        @ [Release Audio_context])
   \<and> oshu_audio_close None evs = (None, evs)
   \<and> (case oshu_audio_close handle evs of (h, evs') \<Rightarrow> oshu_audio_close h evs')
       = oshu_audio_close handle evs"
proof (intro conjI)
  show "oshu_audio_close (Some audio) evs =
     (None, evs @ (if device_id audio \<noteq> 0 then [Release Device] else [])
        @ (if frame (source audio) \<noteq> None then [Release Stream_frame] else [])
        @ (if decoder (source audio) \<noteq> None then [Release Decoder] else [])
        @ (if demuxer (source audio) \<noteq> None then [Release Demuxer] else [])
        @ [Release Audio_context])"
    by (simp add: oshu_audio_close_result close_events_def)
  show none: "oshu_audio_close None evs = (None, evs)" for evs
    by (simp add: oshu_audio_close_def)
  show "(case oshu_audio_close handle evs of (h, evs') \<Rightarrow> oshu_audio_close h evs')
       = oshu_audio_close handle evs"
    by (cases handle) (simp_all add: none oshu_audio_close_result)
qed

section \<open>How the position moves\<close>

lemma advances_refl: "advances a a"
  by (auto simp: advances_def)

lemma advances_same:
  "source a' = source a \<Longrightarrow> current_timestamp a' = current_timestamp a \<Longrightarrow> advances a a'"
  by (auto simp: advances_def)

lemma advances_trans:
  assumes "advances a b" "advances b c"
  shows "advances a c"
proof -
  from assms(1) obtain g1 where g1: "upcoming_frames (source a) = g1 @ upcoming_frames (source b)"
      "current_timestamp b = current_timestamp a
        \<or> (\<exists>f\<in>set g1. 0 < best_effort_timestamp f
              \<and> current_timestamp b = time_base (source a) * real_of_int (best_effort_timestamp f))"
    and tb1: "time_base (source b) = time_base (source a)"
    by (auto simp: advances_def)
  from assms(2) obtain g2 where g2: "upcoming_frames (source b) = g2 @ upcoming_frames (source c)"
      "current_timestamp c = current_timestamp b
        \<or> (\<exists>f\<in>set g2. 0 < best_effort_timestamp f
              \<and> current_timestamp c = time_base (source b) * real_of_int (best_effort_timestamp f))"
    and tb2: "time_base (source c) = time_base (source b)"
    by (auto simp: advances_def)
  have "upcoming_frames (source a) = (g1 @ g2) @ upcoming_frames (source c)"
    using g1(1) g2(1) by simp
  moreover have "current_timestamp c = current_timestamp a
      \<or> (\<exists>f\<in>set (g1 @ g2). 0 < best_effort_timestamp f
            \<and> current_timestamp c = time_base (source a) * real_of_int (best_effort_timestamp f))"
    using g1(2) g2(2) tb1 by auto
  ultimately show ?thesis
    unfolding advances_def using tb1 tb2 by (intro conjI exI [of _ "g1 @ g2"]) simp_all
qed

text \<open>
  \<open>next_frame\<close> in one piece: the stream is the one \<open>oshu_next_frame\<close> leaves, only the
  music source of the pipeline changes, and the position changes exactly when a frame
  with a positive timestamp was decoded.
\<close>

lemma next_frame_result:
  assumes "next_frame a = Return (rc, a')"
  shows "\<exists>rc0 s' m. oshu_next_frame (source a) = Return (rc0, s')
    \<and> a' = a\<lparr>source := s', pipeline := (pipeline a)\<lparr>music := Some m\<rparr>,
          current_timestamp :=
            (case frame s' of
               Some f \<Rightarrow> if 0 \<le> rc0 \<and> 0 < best_effort_timestamp f
                 then time_base s' * real_of_int (best_effort_timestamp f)
                 else current_timestamp a
             | None \<Rightarrow> current_timestamp a)\<rparr>"
proof -
  from assms obtain rc0 s' where run: "oshu_next_frame (source a) = Return (rc0, s')"
    by (auto simp: next_frame_def andthen_Return_iff)
  with assms obtain m0 where m0: "music (pipeline a) = Some m0"
    by (cases "music (pipeline a)") (auto simp: next_frame_def Let_def)
  from oshu_next_frame_delivers [OF run] obtain f where f: "frame s' = Some f"
    by auto
  show ?thesis
  proof (cases "rc0 < 0")
    case True
    with assms run m0 f have "a' = a\<lparr>source := s',
        pipeline := (pipeline a)\<lparr>music := Some (snd (av_buffersrc_write_frame m0 None))\<rparr>\<rparr>"
      by (auto simp: next_frame_def Let_def case_prod_beta split: if_splits)
    with run f True show ?thesis
      by (intro exI [of _ rc0] exI [of _ s']
          exI [of _ "snd (av_buffersrc_write_frame m0 None)"]) simp
  next
    case False
    with assms run m0 f have "a' = a\<lparr>source := s',
        pipeline := (pipeline a)\<lparr>music := Some (snd (av_buffersrc_write_frame m0 (Some f)))\<rparr>,
        current_timestamp := (if 0 < best_effort_timestamp f
          then time_base s' * real_of_int (best_effort_timestamp f) else current_timestamp a)\<rparr>"
      by (auto simp: next_frame_def Let_def case_prod_beta split: if_splits)
    with run f False show ?thesis
      by (intro exI [of _ rc0] exI [of _ s']
          exI [of _ "snd (av_buffersrc_write_frame m0 (Some f))"]) simp
  qed
qed

lemma next_frame_advances:
  assumes "next_frame a = Return (rc, a')"
  shows "advances a a'"
proof -
  from next_frame_result [OF assms] obtain rc0 s' m
    where run: "oshu_next_frame (source a) = Return (rc0, s')"
      and a': "a' = a\<lparr>source := s', pipeline := (pipeline a)\<lparr>music := Some m\<rparr>,
          current_timestamp :=
            (case frame s' of
               Some f \<Rightarrow> if 0 \<le> rc0 \<and> 0 < best_effort_timestamp f
                 then time_base s' * real_of_int (best_effort_timestamp f)
                 else current_timestamp a
             | None \<Rightarrow> current_timestamp a)\<rparr>"
    by blast
  note d = oshu_next_frame_delivers [OF run]
  from d obtain f where f: "frame s' = Some f"
    by auto
  show ?thesis
  proof (cases "0 \<le> rc0 \<and> 0 < best_effort_timestamp f")
    case True
    with d have "rc0 = 0"
      by (auto simp: AVERROR_EOF_def)
    with d f have up: "upcoming_frames (source a) = [f] @ upcoming_frames s'"
      by simp
    show ?thesis
      unfolding advances_def using a' f True d up
      by (intro conjI exI [of _ "[f]"]) simp_all
  next
    case False
    from d obtain gone where "upcoming_frames (source a) = gone @ upcoming_frames s'"
      by blast
    with a' f False d show ?thesis
      unfolding advances_def by (intro conjI exI [of _ gone]) auto
  qed
qed

lemma next_frame_finished:
  "next_frame a = Return (rc, a') \<Longrightarrow> finished a' = finished a"
  by (drule next_frame_result) auto

lemma feed_advances:
  assumes "feed a = Return a'"
  shows "advances a a' \<and> finished a' = finished a"
proof -
  from feedE [OF assms] obtain a1
    where a1: "a1 = a \<or> (\<exists>rc. next_frame a = Return (rc, a1))"
      and a': "a' = a1 \<or> a' = a1\<lparr>overlay := None\<rparr>
        \<or> (\<exists>e1. a' = a1\<lparr>pipeline := (pipeline a1)\<lparr>effect := Some e1\<rparr>\<rparr>)"
    by blast
  from a1 have "advances a a1 \<and> finished a1 = finished a"
    by (auto simp: advances_refl next_frame_advances next_frame_finished)
  moreover from a' have "advances a1 a' \<and> finished a' = finished a1"
    by (auto simp: advances_refl intro: advances_same)
  ultimately show ?thesis
    by (auto intro: advances_trans)
qed

text \<open>Induction along the loop of the callback.\<close>

lemma audio_callback_induct [case_names round]:
  assumes step: "\<And>a. (\<And>p a2. finished a = 0
      \<Longrightarrow> av_buffersink_get_frame (pipeline a) = Return (AVERROR_EAGAIN, p)
      \<Longrightarrow> feed (a\<lparr>pipeline := p\<rparr>) = Return a2 \<Longrightarrow> P a2) \<Longrightarrow> P a"
  shows "P a"
proof (induction a rule: measure_induct_rule [where f = answers_left])
  case (less a)
  show ?case
  proof (rule step)
    fix p a2
    assume "av_buffersink_get_frame (pipeline a) = Return (AVERROR_EAGAIN, p)"
      "feed (a\<lparr>pipeline := p\<rparr>) = Return a2"
    then have "answers_left a2 < answers_left a"
      using get_frame_answers_left [of a AVERROR_EAGAIN p] feed_answers_left [of "a\<lparr>pipeline := p\<rparr>" a2]
      by simp
    then show "P a2"
      by (rule less.IH)
  qed
qed

lemma audio_callback_cases [consumes 1, case_names finished again stop]:
  assumes "audio_callback a buffer len = Return (a', b)"
  obtains "finished a \<noteq> 0" "a' = a"
  | p a2 where "finished a = 0"
      "av_buffersink_get_frame (pipeline a) = Return (AVERROR_EAGAIN, p)"
      "feed (a\<lparr>pipeline := p\<rparr>) = Return a2" "audio_callback a2 buffer len = Return (a', b)"
  | rc p where "finished a = 0" "av_buffersink_get_frame (pipeline a) = Return (rc, p)"
      "rc \<noteq> AVERROR_EAGAIN" "a' = a\<lparr>pipeline := p\<rparr> \<or> a' = a\<lparr>pipeline := p, finished := 1\<rparr>"
proof (cases "finished a = 0")
  case False
  with assms have "andthen (memset buffer len (unat (silence (device_spec a))))
      (\<lambda>b. Return (a, b)) = Return (a', b)"
    by (simp add: audio_callback_finished)
  then have "a' = a"
    by (auto simp: andthen_Return_iff)
  with False show ?thesis
    by (intro that(1))
next
  case True
  with assms obtain rc p where g: "av_buffersink_get_frame (pipeline a) = Return (rc, p)"
    and k: "(if rc = AVERROR_EAGAIN then
            andthen (feed (a\<lparr>pipeline := p\<rparr>)) (\<lambda>a2. audio_callback a2 buffer len)
          else if rc = AVERROR_EOF then
            andthen (memset buffer len (unat (silence (device_spec (a\<lparr>pipeline := p\<rparr>)))))
              (\<lambda>b. Return (a\<lparr>pipeline := p, finished := 1\<rparr>, b))
          else if rc = 0 then
            andthen (deref (output_frame p)) (\<lambda>out.
              andthen (memcpy buffer (data out) len) (\<lambda>b. Return (a\<lparr>pipeline := p\<rparr>, b)))
          else
            andthen (memset buffer len (unat (silence (device_spec (a\<lparr>pipeline := p\<rparr>)))))
              (\<lambda>b. Return (a\<lparr>pipeline := p\<rparr>, b))) = Return (a', b)"
    by (subst (asm) audio_callback.simps) (auto simp: andthen_Return_iff Let_def)
  show ?thesis
  proof (cases "rc = AVERROR_EAGAIN")
    case eagain: True
    with k obtain a2 where "feed (a\<lparr>pipeline := p\<rparr>) = Return a2"
        "audio_callback a2 buffer len = Return (a', b)"
      by (auto simp: andthen_Return_iff)
    with True g eagain that(2) show ?thesis
      by blast
  next
    case False
    with k have "a' = a\<lparr>pipeline := p\<rparr> \<or> a' = a\<lparr>pipeline := p, finished := 1\<rparr>"
      by (auto simp: andthen_Return_iff split: if_splits)
    with True g False that(3) show ?thesis
      by blast
  qed
qed

lemma audio_callback_advances:
  "audio_callback a buffer len = Return (a', b) \<Longrightarrow>
   advances a a' \<and> (finished a \<noteq> 0 \<longrightarrow> a' = a)"
proof (induction a rule: audio_callback_induct)
  case (round a)
  from round.prems show ?case
  proof (cases rule: audio_callback_cases)
    case finished
    then show ?thesis
      by (simp add: advances_refl)
  next
    case (again p a2)
    from round.IH [OF again] have "advances a2 a'"
      by simp
    moreover from feed_advances [OF again(3)] have "advances (a\<lparr>pipeline := p\<rparr>) a2"
      by simp
    moreover have "advances a (a\<lparr>pipeline := p\<rparr>)"
      by (simp add: advances_same)
    ultimately show ?thesis
      using again(1) by (auto intro: advances_trans)
  next
    case (stop rc p)
    then show ?thesis
      by (auto intro: advances_same)
  qed
qed

section \<open>The position across calls of the callback\<close>

lemma returnedD: "returned m \<Longrightarrow> \<exists>x. m = Return x"
  by (cases m) (simp_all add: returned_def)

lemma opensD:
  assumes "opens env url"
  shows "\<exists>evs. oshu_audio_open env url [] = Return (0, Some (opened env url), evs)"
proof (cases "oshu_audio_open env url []")
  case (Return x)
  obtain rc h evs where x: "x = (rc, h, evs)"
    by (cases x)
  with assms Return show ?thesis
    by (cases h) (simp_all add: opens_def opened_def)
qed (use assms in \<open>simp_all add: opens_def\<close>)

lemma stamps_append [simp]: "stamps (xs @ ys) = stamps xs @ stamps ys"
  by (simp add: stamps_def)

lemma in_order_advances:
  assumes "in_order a" "advances a a'"
  shows "in_order a' \<and> current_timestamp a \<le> current_timestamp a'"
proof -
  let ?tb = "time_base (source a)"
  from assms(2) obtain gone
    where up: "upcoming_frames (source a) = gone @ upcoming_frames (source a')"
      and tb: "time_base (source a') = ?tb"
      and ct: "current_timestamp a' = current_timestamp a
        \<or> (\<exists>f\<in>set gone. 0 < best_effort_timestamp f
              \<and> current_timestamp a' = ?tb * real_of_int (best_effort_timestamp f))"
    by (auto simp: advances_def)
  from assms(1) up have pos: "0 \<le> ?tb"
    and srt: "sorted (stamps gone @ stamps (upcoming_frames (source a')))"
    and low: "\<forall>t\<in>set (stamps gone) \<union> set (stamps (upcoming_frames (source a'))).
        current_timestamp a \<le> ?tb * real_of_int t"
    by (auto simp: in_order_def)
  from ct show ?thesis
  proof
    assume "current_timestamp a' = current_timestamp a"
    with pos srt low tb show ?thesis
      by (auto simp: in_order_def sorted_append)
  next
    assume "\<exists>f\<in>set gone. 0 < best_effort_timestamp f
        \<and> current_timestamp a' = ?tb * real_of_int (best_effort_timestamp f)"
    then obtain f where f: "f \<in> set gone" "0 < best_effort_timestamp f"
        "current_timestamp a' = ?tb * real_of_int (best_effort_timestamp f)"
      by blast
    then have mem: "best_effort_timestamp f \<in> set (stamps gone)"
      by (auto simp: stamps_def)
    with low f(3) have up1: "current_timestamp a \<le> current_timestamp a'"
      by auto
    have "current_timestamp a' \<le> ?tb * real_of_int t"
      if "t \<in> set (stamps (upcoming_frames (source a')))" for t
    proof -
      from srt mem that have "best_effort_timestamp f \<le> t"
        by (auto simp: sorted_append)
      then have "real_of_int (best_effort_timestamp f) \<le> real_of_int t"
        by simp
      with pos f(3) show ?thesis
        by (simp add: mult_left_mono)
    qed
    with pos srt tb up1 show ?thesis
      by (auto simp: in_order_def sorted_append)
  qed
qed

lemma callbacks_Cons:
  "callbacks a ((buffer, len) # calls) = Return as \<longleftrightarrow>
   (\<exists>a1 b rest. audio_callback a buffer len = Return (a1, b) \<and> callbacks a1 calls = Return rest
      \<and> as = a1 # rest)"
  by (auto simp: andthen_Return_iff)

declare callbacks.simps(2) [simp del]

lemma callbacks_sorted:
  "in_order a \<Longrightarrow> callbacks a calls = Return as \<Longrightarrow> sorted (map current_timestamp (a # as))"
proof (induction calls arbitrary: a as)
  case Nil
  then show ?case
    by simp
next
  case (Cons call calls)
  obtain buffer len where call: "call = (buffer, len)"
    by (cases call)
  from Cons.prems(2) call obtain a1 b rest
    where run: "audio_callback a buffer len = Return (a1, b)" "callbacks a1 calls = Return rest"
      "as = a1 # rest"
    by (auto simp: callbacks_Cons)
  from audio_callback_advances [OF run(1)] in_order_advances [OF Cons.prems(1)]
  have a1: "in_order a1" "current_timestamp a \<le> current_timestamp a1"
    by simp_all
  from Cons.IH [OF a1(1) run(2)] a1(2) run(3) show ?case
    by (auto intro: order_trans)
qed

lemma callbacks_advances:
  "callbacks a calls = Return as \<Longrightarrow> \<forall>b\<in>set as. advances a b"
proof (induction calls arbitrary: a as)
  case Nil
  then show ?case
    by simp
next
  case (Cons call calls)
  obtain buffer len where call: "call = (buffer, len)"
    by (cases call)
  from Cons.prems call obtain a1 b rest
    where run: "audio_callback a buffer len = Return (a1, b)" "callbacks a1 calls = Return rest"
      "as = a1 # rest"
    by (auto simp: callbacks_Cons)
  from audio_callback_advances [OF run(1)] have "advances a a1"
    by simp
  with Cons.IH [OF run(2)] run(3) show ?case
    by (auto intro: advances_trans)
qed

lemma callbacks_finished:
  "finished a \<noteq> 0 \<Longrightarrow> callbacks a calls = Return as \<Longrightarrow> \<forall>b\<in>set as. b = a"
proof (induction calls arbitrary: as)
  case Nil
  then show ?case
    by simp
next
  case (Cons call calls)
  obtain buffer len where call: "call = (buffer, len)"
    by (cases call)
  from Cons.prems(2) call obtain a1 b rest
    where run: "audio_callback a buffer len = Return (a1, b)" "callbacks a1 calls = Return rest"
      "as = a1 # rest"
    by (auto simp: callbacks_Cons)
  from audio_callback_advances [OF run(1)] Cons.prems(1) have "a1 = a"
    by simp
  with Cons.IH [OF Cons.prems(1), of rest] run show ?case
    by simp
qed

lemma callbacks_later:
  "callbacks a calls = Return as \<Longrightarrow> a # as = pre @ b # post \<Longrightarrow>
   \<exists>calls'. callbacks b calls' = Return post"
proof (induction pre arbitrary: a calls as)
  case Nil
  then show ?case
    by auto
next
  case (Cons x pre)
  then have as: "as = pre @ b # post"
    by simp
  show ?case
  proof (cases calls)
    case Nil
    with Cons.prems(1) as show ?thesis
      by simp
  next
    case (Cons call calls')
    obtain buffer len where call: "call = (buffer, len)"
      by (cases call)
    from Cons.prems(1) Cons call obtain a1 bb rest
      where run: "callbacks a1 calls' = Return rest" "as = a1 # rest"
      by (auto simp: callbacks_Cons)
    with as have "a1 # rest = pre @ b # post"
      by simp
    from Cons.IH [OF run(1) this] show ?thesis .
  qed
qed

text \<open>
  C5, as the code has it. The position is copied from the frame just decoded, so it
  can only be as ordered as the timestamps of the frames. Over any run of calls of the
  callback: if the context starts in order (the time base is not negative, and the
  positive timestamps still to come do not go back nor lie before the position), the
  position never goes back; and from a context that is finished on, the position stays
  what it is.
\<close>

theorem position_follows_the_frames:
  assumes "callbacks a calls = Return as"
  shows "(in_order a \<longrightarrow> sorted (map current_timestamp (a # as)))
    \<and> (\<forall>pre b post. a # as = pre @ b # post \<and> finished b \<noteq> 0
          \<longrightarrow> (\<forall>c\<in>set post. current_timestamp c = current_timestamp b))"
proof (intro conjI allI impI)
  assume "in_order a"
  from callbacks_sorted [OF this assms] show "sorted (map current_timestamp (a # as))" .
next
  fix pre b post
  assume h: "a # as = pre @ b # post \<and> finished b \<noteq> 0"
  with callbacks_later [OF assms, of pre b post] obtain calls'
    where "callbacks b calls' = Return post"
    by blast
  from callbacks_finished [OF _ this] h show "\<forall>c\<in>set post. current_timestamp c = current_timestamp b"
    by auto
qed

text \<open>
  A run of three calls on a track in order: the sink asks for music and delivers a
  buffer, then reports the end of the stream. The second call finishes the context.
\<close>

theorem position_follows_the_frames_witness:
  "in_order (opened (studio (track_of [0, 5, 10]) run_to_the_end) ''song.ogg'')
   \<and> (\<exists>b1 b2 b3.
        callbacks (opened (studio (track_of [0, 5, 10]) run_to_the_end) ''song.ogg'') three_calls
          = Return [b1, b2, b3]
        \<and> sorted (map current_timestamp
            [opened (studio (track_of [0, 5, 10]) run_to_the_end) ''song.ogg'', b1, b2, b3])
        \<and> finished b2 \<noteq> 0 \<and> current_timestamp b3 = current_timestamp b2)"
proof -
  let ?a = "opened (studio (track_of [0, 5, 10]) run_to_the_end) ''song.ogg''"
  have io: "in_order ?a"
    by code_simp
  have pos: "positions ?a three_calls = Return [(5, 0), (5, 1), (5, 1)]"
    by code_simp
  then obtain as where as: "callbacks ?a three_calls = Return as"
    and m: "map (\<lambda>b. (current_timestamp b, finished b)) as = [(5, 0), (5, 1), (5, 1)]"
    by (auto simp: positions_def andthen_Return_iff)
  from m obtain b1 b2 b3 where bs: "as = [b1, b2, b3]" and f2: "finished b2 = 1"
    by (auto simp: map_eq_Cons_conv)
  note t = position_follows_the_frames [OF as]
  from t io bs have "sorted (map current_timestamp [?a, b1, b2, b3])"
    by simp
  moreover have "current_timestamp b3 = current_timestamp b2"
  proof -
    from t have "?a # as = [?a, b1] @ b2 # [b3] \<and> finished b2 \<noteq> 0
        \<longrightarrow> (\<forall>c\<in>set [b3]. current_timestamp c = current_timestamp b2)"
      by blast
    with bs f2 show ?thesis
      by simp
  qed
  ultimately show ?thesis
    using io as bs f2 by auto
qed

text \<open>
  Against C5 as stated: on a track whose second and third frame carry the timestamps
  10 and 5, the position after the first call is 10 and after the second call 5, and
  the context is not finished.
\<close>

theorem position_goes_back:
  "positions (opened (studio (track_of [0, 10, 5]) two_rounds) ''song.ogg'') two_calls
     = Return [(10, 0), (5, 0)]"
  by code_simp

section \<open>Opening a context\<close>

lemma open_device_result:
  assumes "open_device env a evs = Return (rc, a', evs')"
  shows "\<exists>id spec. a' = a\<lparr>device_id := id, device_spec := spec\<rparr>
    \<and> (rc = 0 \<and> id \<noteq> 0 \<and> evs' = evs @ [Acquire Device] \<or> rc = - 1 \<and> id = 0 \<and> evs' = evs)"
  using assms
  by (auto simp: open_device_def andthen_Return_iff deref_Return_iff Let_def case_prod_beta
      split: if_splits)

lemma create_graph_changes:
  assumes "create_graph env a evs = Return (rc, a', evs')"
  shows "(rc = 0 \<or> rc = - 1) \<and> (\<exists>p. a' = a\<lparr>pipeline := p\<rparr>)"
  using assms
  by (auto simp: create_graph_def andthen_Return_iff case_prod_beta split: if_splits)

lemma oshu_audio_open_cases [consumes 1, case_names no_memory no_stream no_device no_graph opened]:
  assumes "oshu_audio_open env url evs = Return (rc, h, evs')"
  obtains "\<not> allocates env Audio_context" "rc = - 1" "h = None" "evs' = evs"
  | rc1 s evs1 where "allocates env Audio_context"
      "oshu_open_stream env url zeroed_stream (evs @ [Acquire Audio_context]) = Return (rc1, s, evs1)"
      "rc1 < 0" "rc = - 1"
      "(h, evs') = oshu_audio_close (Some (zeroed_audio\<lparr>source := s\<rparr>)) evs1"
  | rc1 s evs1 rc2 a2 evs2 where "allocates env Audio_context"
      "oshu_open_stream env url zeroed_stream (evs @ [Acquire Audio_context]) = Return (rc1, s, evs1)"
      "\<not> rc1 < 0" "open_device env (zeroed_audio\<lparr>source := s\<rparr>) evs1 = Return (rc2, a2, evs2)"
      "rc2 < 0" "rc = - 1" "(h, evs') = oshu_audio_close (Some a2) evs2"
  | rc1 s evs1 rc2 a2 evs2 rc3 a3 evs3 where "allocates env Audio_context"
      "oshu_open_stream env url zeroed_stream (evs @ [Acquire Audio_context]) = Return (rc1, s, evs1)"
      "\<not> rc1 < 0" "open_device env (zeroed_audio\<lparr>source := s\<rparr>) evs1 = Return (rc2, a2, evs2)"
      "\<not> rc2 < 0" "create_graph env a2 evs2 = Return (rc3, a3, evs3)"
      "rc3 < 0" "rc = - 1" "(h, evs') = oshu_audio_close (Some a3) evs3"
  | rc1 s evs1 rc2 a2 evs2 rc3 a3 where "allocates env Audio_context"
      "oshu_open_stream env url zeroed_stream (evs @ [Acquire Audio_context]) = Return (rc1, s, evs1)"
      "\<not> rc1 < 0" "open_device env (zeroed_audio\<lparr>source := s\<rparr>) evs1 = Return (rc2, a2, evs2)"
      "\<not> rc2 < 0" "create_graph env a2 evs2 = Return (rc3, a3, evs')"
      "\<not> rc3 < 0" "rc = 0" "h = Some a3"
proof (cases "allocates env Audio_context")
  case False
  with assms that(1) show ?thesis
    by (simp add: oshu_audio_open_def)
next
  case True
  have src: "source zeroed_audio = zeroed_stream"
    by (simp add: zeroed_audio_def)
  from assms True obtain rc1 s evs1
    where st: "oshu_open_stream env url zeroed_stream (evs @ [Acquire Audio_context])
        = Return (rc1, s, evs1)"
    by (cases "oshu_open_stream env url zeroed_stream (evs @ [Acquire Audio_context])")
      (auto simp: oshu_audio_open_def src)
  let ?a1 = "zeroed_audio\<lparr>source := s\<rparr>"
  show ?thesis
  proof (cases "rc1 < 0")
    case neg: True
    with assms True st have "rc = - 1" "(h, evs') = oshu_audio_close (Some ?a1) evs1"
      by (simp_all add: oshu_audio_open_def src open_failed_def)
    with True st neg that(2) show ?thesis
      by blast
  next
    case ok1: False
    with assms True st obtain rc2 a2 evs2
      where dv: "open_device env ?a1 evs1 = Return (rc2, a2, evs2)"
      by (cases "open_device env ?a1 evs1") (auto simp: oshu_audio_open_def src)
    show ?thesis
    proof (cases "rc2 < 0")
      case neg: True
      with assms True st ok1 dv have "rc = - 1" "(h, evs') = oshu_audio_close (Some a2) evs2"
        by (simp_all add: oshu_audio_open_def src open_failed_def)
      with True st ok1 dv neg that(3) show ?thesis
        by blast
    next
      case ok2: False
      with assms True st ok1 dv obtain rc3 a3 evs3
        where gr: "create_graph env a2 evs2 = Return (rc3, a3, evs3)"
        by (cases "create_graph env a2 evs2") (auto simp: oshu_audio_open_def src)
      show ?thesis
      proof (cases "rc3 < 0")
        case neg: True
        with assms True st ok1 dv ok2 gr
        have "rc = - 1" "(h, evs') = oshu_audio_close (Some a3) evs3"
          by (simp_all add: oshu_audio_open_def src open_failed_def)
        with True st ok1 dv ok2 gr neg that(4) show ?thesis
          by blast
      next
        case ok3: False
        with assms True st ok1 dv ok2 gr have "rc = 0" "h = Some a3" "evs' = evs3"
          by (simp_all add: oshu_audio_open_def src)
        with True st ok1 dv ok2 gr ok3 that(5) show ?thesis
          by blast
      qed
    qed
  qed
qed

text \<open>A context that \<open>oshu_audio_open\<close> returns starts at position 0, not finished.\<close>

lemma oshu_audio_open_fresh:
  assumes "oshu_audio_open env url evs = Return (0, Some a, evs')"
  shows "current_timestamp a = 0 \<and> finished a = 0 \<and> device_id a \<noteq> 0"
  using assms
proof (cases rule: oshu_audio_open_cases)
  case (opened rc1 s evs1 rc2 a2 evs2 rc3 a3)
  from open_device_result [OF opened(4)] opened(5) create_graph_changes [OF opened(6)] opened(9)
  show ?thesis
    by (auto simp: zeroed_audio_def)
qed (simp_all add: oshu_audio_close_def)

lemma next_frame_keeps_position:
  assumes "oshu_next_frame (source a) = Return (rc0, s')" "frame s' = Some f"
    and "best_effort_timestamp f \<le> 0" "next_frame a = Return (rc, a')"
  shows "current_timestamp a' = current_timestamp a"
  using next_frame_result [OF assms(4)] assms(1-3) by auto

text \<open>
  C9. When the frame \<open>next_frame\<close> has just decoded carries a timestamp that is zero or
  negative, the position is left as it was. A context that \<open>oshu_audio_open\<close> returns
  shows position 0, and after any calls of the callback it still shows 0 as long as
  all the frames consumed since the open carry timestamps that are zero or negative.
\<close>

theorem position_waits_for_a_positive_timestamp:
  "(oshu_next_frame (source a) = Return (rc0, s') \<and> frame s' = Some f
      \<and> best_effort_timestamp f \<le> 0 \<and> next_frame a = Return (rc, a')
    \<longrightarrow> current_timestamp a' = current_timestamp a)
   \<and> (oshu_audio_open env url evs = Return (0, Some a0, evs') \<and> callbacks a0 calls = Return as
    \<longrightarrow> current_timestamp a0 = 0
      \<and> (\<forall>b\<in>set as. \<forall>gone.
            upcoming_frames (source a0) = gone @ upcoming_frames (source b)
            \<and> (\<forall>f\<in>set gone. best_effort_timestamp f \<le> 0)
            \<longrightarrow> current_timestamp b = 0))"
proof (intro conjI impI ballI allI)
  assume "oshu_next_frame (source a) = Return (rc0, s') \<and> frame s' = Some f
      \<and> best_effort_timestamp f \<le> 0 \<and> next_frame a = Return (rc, a')"
  then show "current_timestamp a' = current_timestamp a"
    by (intro next_frame_keeps_position [of a rc0 s' f rc a']) simp_all
next
  assume h: "oshu_audio_open env url evs = Return (0, Some a0, evs') \<and> callbacks a0 calls = Return as"
  with oshu_audio_open_fresh [of env url evs a0 evs'] show z: "current_timestamp a0 = 0"
    by simp
  fix b gone
  assume b: "b \<in> set as"
    and g: "upcoming_frames (source a0) = gone @ upcoming_frames (source b)
      \<and> (\<forall>f\<in>set gone. best_effort_timestamp f \<le> 0)"
  from h b callbacks_advances [of a0 calls as] have "advances a0 b"
    by simp
  then obtain gone' where g': "upcoming_frames (source a0) = gone' @ upcoming_frames (source b)"
      "current_timestamp b = current_timestamp a0
        \<or> (\<exists>f\<in>set gone'. 0 < best_effort_timestamp f)"
    by (auto simp: advances_def)
  from g g'(1) have "gone' = gone"
    by simp
  with g g'(2) z show "current_timestamp b = 0"
    by auto
qed

theorem position_waits_for_a_positive_timestamp_witness:
  "\<exists>evs' as. oshu_audio_open (studio (track_of [0, 0, - 3]) two_rounds) ''song.ogg'' [] =
       Return (0, Some (opened (studio (track_of [0, 0, - 3]) two_rounds) ''song.ogg''), evs')
     \<and> callbacks (opened (studio (track_of [0, 0, - 3]) two_rounds) ''song.ogg'') two_calls
         = Return as
     \<and> as \<noteq> [] \<and> list_all (\<lambda>b. current_timestamp b = 0) as"
proof -
  let ?env = "studio (track_of [0, 0, - 3]) two_rounds"
  let ?a = "opened ?env ''song.ogg''"
  have "opens ?env ''song.ogg''"
    by code_simp
  then obtain evs' where op: "oshu_audio_open ?env ''song.ogg'' [] = Return (0, Some ?a, evs')"
    by (auto dest: opensD)
  have "returned (callbacks ?a two_calls)"
    by code_simp
  then obtain as where as: "callbacks ?a two_calls = Return as"
    by (auto dest: returnedD)
  have low: "list_all (\<lambda>f. best_effort_timestamp f \<le> 0) (upcoming_frames (source ?a))"
    by code_simp
  have "current_timestamp b = 0" if b: "b \<in> set as" for b
  proof -
    from callbacks_advances [OF as] b obtain gone
      where g: "upcoming_frames (source ?a) = gone @ upcoming_frames (source b)"
      by (auto simp: advances_def)
    with low have "\<forall>f\<in>set gone. best_effort_timestamp f \<le> 0"
      by (auto simp: list_all_iff)
    with position_waits_for_a_positive_timestamp [of ?a 0 "source ?a" blank_frame 0 ?a ?env
        "''song.ogg''" "[]" ?a evs' two_calls as] op as b g
    show ?thesis
      by blast
  qed
  moreover from as have "as \<noteq> []"
    by (auto simp: two_calls_def callbacks_Cons)
  ultimately show ?thesis
    using op as by (auto simp: list_all_iff)
qed

section \<open>What a failed open leaves behind\<close>

lemma held_extend: "held es l = Some l' \<Longrightarrow> held es (l @ live) = Some (l' @ live)"
proof (induction es l rule: held.induct)
  case (3 r es live0)
  then show ?case
    by (auto simp: remove1_append split: if_splits)
qed simp_all

lemma graph_onlyD:
  assumes "graph_only added"
  shows "\<exists>leaked. (\<forall>live. held added live = Some (leaked @ live)) \<and> list_all graph_piece leaked"
proof -
  from assms obtain leaked where l: "held added [] = Some leaked" "list_all graph_piece leaked"
    by (auto simp: graph_only_def split: option.splits)
  from held_extend [OF l(1)] l(2) show ?thesis
    by auto
qed

lemma graph_only_append:
  assumes "graph_only xs" "graph_only ys"
  shows "graph_only (xs @ ys)"
proof -
  from graph_onlyD [OF assms(1)] obtain lx
    where lx: "\<And>live. held xs live = Some (lx @ live)" "list_all graph_piece lx"
    by blast
  from graph_onlyD [OF assms(2)] obtain ly
    where ly: "\<And>live. held ys live = Some (ly @ live)" "list_all graph_piece ly"
    by blast
  from lx ly show ?thesis
    by (simp add: graph_only_def held_append)
qed

lemma graph_only_Nil [simp]: "graph_only []"
  by (simp add: graph_only_def)

lemma graph_step_then:
  assumes "graph_step evs m" "\<And>p evs1. graph_step evs1 (k (p, evs1))"
  shows "graph_step evs (then_stage m k)"
  unfolding graph_step_def
proof (intro allI impI)
  fix rc p evs'
  assume run: "then_stage m k = Return (rc, p, evs')"
  then obtain rc1 p1 evs1 where m: "m = Return (rc1, p1, evs1)"
    and k: "(if rc1 \<noteq> 0 then Return (rc1, p1, evs1) else k (p1, evs1)) = Return (rc, p, evs')"
    by (auto simp: then_stage_def andthen_Return_iff)
  from assms(1) m obtain a1 where a1: "rc1 = 0 \<or> rc1 = - 1" "evs1 = evs @ a1" "graph_only a1"
    by (auto simp: graph_step_def)
  show "(rc = 0 \<or> rc = - 1) \<and> (\<exists>added. evs' = evs @ added \<and> graph_only added)"
  proof (cases "rc1 = 0")
    case False
    with k a1 show ?thesis
      by auto
  next
    case True
    with k have "k (p1, evs1) = Return (rc, p, evs')"
      by simp
    with assms(2) [of evs1 p1] obtain a2
      where "rc = 0 \<or> rc = - 1" "evs' = evs1 @ a2" "graph_only a2"
      by (auto simp: graph_step_def)
    with a1 show ?thesis
      by (intro conjI exI [of _ "a1 @ a2"]) (simp_all add: graph_only_append)
  qed
qed

lemma music_stage_step: "graph_step evs (music_stage env audio (p, evs))"
  by (auto simp: graph_step_def music_stage_def asserting_def Let_def andthen_Return_iff
      deref_Return_iff graph_only_def split: if_splits)

lemma effect_stage_step: "graph_step evs (effect_stage env audio (p, evs))"
  by (auto simp: graph_step_def effect_stage_def asserting_def Let_def graph_only_def
      split: if_splits)

lemma mixer_stage_step: "graph_step evs (mixer_stage env (p, evs))"
  by (auto simp: graph_step_def mixer_stage_def asserting_def Let_def graph_only_def
      split: if_splits)

lemma converter_stage_step: "graph_step evs (converter_stage env (p, evs))"
  by (auto simp: graph_step_def converter_stage_def asserting_def Let_def graph_only_def
      split: if_splits)

lemma sink_stage_step: "graph_step evs (sink_stage env (p, evs))"
  by (auto simp: graph_step_def sink_stage_def asserting_def Let_def graph_only_def
      split: if_splits)

lemma avfilter_link_step: "graph_step evs (avfilter_link env src i dst j (p, evs))"
  by (auto simp: graph_step_def avfilter_link_def split: if_splits)

lemma links_stage_step: "graph_step evs (links_stage env (p, evs))"
  unfolding links_stage_def
  by (intro graph_step_then avfilter_link_step)

lemma config_stage_step: "graph_step evs (config_stage env (p, evs))"
  by (auto simp: graph_step_def config_stage_def asserting_def Let_def graph_only_def
      split: if_splits)

lemma graph_stages_step: "graph_step evs (graph_stages env audio (p, evs))"
  unfolding graph_stages_def
  by (intro graph_step_then music_stage_step effect_stage_step mixer_stage_step
      converter_stage_step sink_stage_step links_stage_step config_stage_step)

lemma create_graph_result:
  assumes "create_graph env a evs = Return (rc, a', evs')"
  shows "(rc = 0 \<or> rc = - 1) \<and> (\<exists>p. a' = a\<lparr>pipeline := p\<rparr>)
    \<and> (\<exists>added. evs' = evs @ added \<and> graph_only added)"
proof -
  from assms obtain rc0 p where "graph_stages env a (pipeline a, evs) = Return (rc0, p, evs')"
    by (auto simp: create_graph_def andthen_Return_iff)
  with graph_stages_step [of evs env a "pipeline a"] create_graph_changes [OF assms]
  show ?thesis
    by (auto simp: graph_step_def)
qed

lemma remove1_past:
  "list_all graph_piece leaked \<Longrightarrow> \<not> graph_piece r \<Longrightarrow>
   remove1 r (leaked @ r # rest) = leaked @ rest"
  by (auto simp: remove1_append list_all_iff)

lemma failed_open_result:
  assumes "oshu_audio_open env url evs = Return (rc, h, evs')" "rc \<noteq> 0"
  shows "rc = - 1 \<and> h = None
    \<and> (\<exists>added leaked. evs' = evs @ added
          \<and> (\<forall>live. held added live = Some (leaked @ live)) \<and> list_all graph_piece leaked)"
  using assms(1)
proof (cases rule: oshu_audio_open_cases)
  case no_memory
  then show ?thesis
    by (intro conjI exI [of _ "[]"]) simp_all
next
  case (no_stream rc1 s evs1)
  from oshu_open_stream_result [OF no_stream(2)] no_stream(3) obtain sadded
    where s: "demuxer s = None" "decoder s = None" "frame s = None"
      and ev: "evs1 = (evs @ [Acquire Audio_context]) @ sadded"
        "\<And>live. held sadded live = Some live"
    by auto
  from no_stream(5) s have "h = None" "evs' = evs1 @ [Release Audio_context]"
    by (simp_all add: oshu_audio_close_result close_events_def zeroed_audio_def)
  with ev no_stream(4) show ?thesis
    by (intro conjI exI [of _ "[Acquire Audio_context] @ sadded @ [Release Audio_context]"]
        exI [of _ "[]"]) (simp_all add: held_append)
next
  case (no_device rc1 s evs1 rc2 a2 evs2)
  from oshu_open_stream_result [OF no_device(2)] no_device(3) obtain sadded
    where s: "demuxer s \<noteq> None" "decoder s \<noteq> None" "frame s \<noteq> None"
      and ev: "evs1 = (evs @ [Acquire Audio_context]) @ sadded"
        "\<And>live. held sadded live = Some (Stream_frame # Decoder # Demuxer # live)"
    by auto
  from open_device_result [OF no_device(4)] no_device(5)
  have a2: "device_id a2 = 0" "source a2 = s" "evs2 = evs1"
    by auto
  let ?closing = "[Release Stream_frame, Release Decoder, Release Demuxer, Release Audio_context]"
  from no_device(7) a2 s have "h = None" "evs' = evs1 @ ?closing"
    by (simp_all add: oshu_audio_close_result close_events_def)
  with ev no_device(6) show ?thesis
    by (intro conjI exI [of _ "[Acquire Audio_context] @ sadded @ ?closing"] exI [of _ "[]"])
      (simp_all add: held_append)
next
  case (no_graph rc1 s evs1 rc2 a2 evs2 rc3 a3 evs3)
  from oshu_open_stream_result [OF no_graph(2)] no_graph(3) obtain sadded
    where s: "demuxer s \<noteq> None" "decoder s \<noteq> None" "frame s \<noteq> None"
      and ev: "evs1 = (evs @ [Acquire Audio_context]) @ sadded"
        "\<And>live. held sadded live = Some (Stream_frame # Decoder # Demuxer # live)"
    by auto
  from open_device_result [OF no_graph(4)] no_graph(5)
  have a2: "device_id a2 \<noteq> 0" "source a2 = s" "evs2 = evs1 @ [Acquire Device]"
    by auto
  from create_graph_result [OF no_graph(6)] obtain gadded
    where g: "evs3 = evs2 @ gadded" "graph_only gadded"
      and a3: "device_id a3 = device_id a2" "source a3 = source a2"
    by auto
  from graph_onlyD [OF g(2)] obtain leaked
    where l: "\<And>live. held gadded live = Some (leaked @ live)" "list_all graph_piece leaked"
    by blast
  let ?closing = "[Release Device, Release Stream_frame, Release Decoder, Release Demuxer,
    Release Audio_context]"
  from no_graph(9) a2 a3 s have h: "h = None" "evs' = evs3 @ ?closing"
    by (simp_all add: oshu_audio_close_result close_events_def)
  let ?added = "[Acquire Audio_context] @ sadded @ [Acquire Device] @ gadded @ ?closing"
  have "held ?added live = Some (leaked @ live)" for live
    using ev(2) l remove1_past [OF l(2)]
    by (simp add: held_append)
  moreover from h ev(1) a2(3) g(1) have "evs' = evs @ ?added"
    by simp
  ultimately show ?thesis
    using h(1) no_graph(8) l(2) by blast
next
  case (opened rc1 s evs1 rc2 a2 evs2 rc3 a3)
  with assms(2) show ?thesis
    by simp
qed

lemma returned_Return [simp]: "returned (Return x)"
  by (simp add: returned_def)

lemma returned_then_stage:
  assumes "returned m" "\<And>st. returned (k st)"
  shows "returned (then_stage m k)"
proof -
  from returnedD [OF assms(1)] obtain x where "m = Return x"
    by blast
  with assms(2) show ?thesis
    by (cases x) (simp add: then_stage_def)
qed

lemma music_stage_returns:
  "\<forall>r. allocates env r \<Longrightarrow> \<forall>f. registered env f \<Longrightarrow> decoder (source audio) \<noteq> None \<Longrightarrow>
   stream (source audio) \<noteq> None \<Longrightarrow> returned (music_stage env audio st)"
  by (cases st) (auto simp: music_stage_def asserting_def Let_def)

lemma effect_stage_returns:
  "\<forall>r. allocates env r \<Longrightarrow> returned (effect_stage env audio st)"
  by (cases st) (auto simp: effect_stage_def asserting_def Let_def)

lemma mixer_stage_returns:
  "\<forall>r. allocates env r \<Longrightarrow> \<forall>f. registered env f \<Longrightarrow> returned (mixer_stage env st)"
  by (cases st) (auto simp: mixer_stage_def asserting_def Let_def)

lemma converter_stage_returns:
  "\<forall>r. allocates env r \<Longrightarrow> \<forall>f. registered env f \<Longrightarrow> returned (converter_stage env st)"
  by (cases st) (auto simp: converter_stage_def asserting_def Let_def)

lemma sink_stage_returns:
  "\<forall>r. allocates env r \<Longrightarrow> \<forall>f. registered env f \<Longrightarrow> returned (sink_stage env st)"
  by (cases st) (auto simp: sink_stage_def asserting_def Let_def)

lemma avfilter_link_returns: "returned (avfilter_link env src i dst j st)"
  by (cases st) (auto simp: avfilter_link_def)

lemma links_stage_returns: "returned (links_stage env st)"
  unfolding links_stage_def
  by (intro returned_then_stage avfilter_link_returns)

lemma config_stage_returns: "\<forall>r. allocates env r \<Longrightarrow> returned (config_stage env st)"
  by (cases st) (auto simp: config_stage_def asserting_def Let_def)

lemma create_graph_returns:
  assumes "\<forall>r. allocates env r" "\<forall>f. registered env f" "decoder (source audio) \<noteq> None"
    "stream (source audio) \<noteq> None"
  shows "returned (create_graph env audio evs)"
proof -
  have "returned (graph_stages env audio (pipeline audio, evs))"
    unfolding graph_stages_def
    by (intro returned_then_stage music_stage_returns effect_stage_returns mixer_stage_returns
        converter_stage_returns sink_stage_returns links_stage_returns config_stage_returns
        assms)
  then obtain x where "graph_stages env audio (pipeline audio, evs) = Return x"
    by (auto dest: returnedD)
  then show ?thesis
    by (cases x) (simp add: create_graph_def)
qed

lemma open_device_returns:
  "decoder (source a) \<noteq> None \<Longrightarrow> returned (open_device env a evs)"
  by (auto simp: open_device_def Let_def case_prod_beta)

lemma oshu_audio_open_returns:
  assumes "\<forall>r. allocates env r" "\<forall>f. registered env f"
    and "\<forall>d. media env url = Inr d \<longrightarrow> best_stream d < int (length (streams d))"
  shows "returned (oshu_audio_open env url evs)"
proof -
  have src: "source zeroed_audio = zeroed_stream"
    by (simp add: zeroed_audio_def)
  from assms(1,3) oshu_open_stream_returns [of env url "evs @ [Acquire Audio_context]"]
  obtain rc1 s evs1
    where st: "oshu_open_stream env url zeroed_stream (evs @ [Acquire Audio_context])
        = Return (rc1, s, evs1)"
    by auto
  let ?a1 = "zeroed_audio\<lparr>source := s\<rparr>"
  show ?thesis
  proof (cases "rc1 < 0")
    case True
    with assms(1) st show ?thesis
      by (simp add: oshu_audio_open_def src open_failed_def)
  next
    case False
    with oshu_open_stream_result [OF st] have s: "decoder s \<noteq> None" "stream s \<noteq> None"
      by auto
    from open_device_returns [of ?a1 env evs1] s obtain rc2 a2 evs2
      where dv: "open_device env ?a1 evs1 = Return (rc2, a2, evs2)"
      by (auto dest!: returnedD)
    from open_device_result [OF dv] have a2: "source a2 = s"
      by auto
    show ?thesis
    proof (cases "rc2 < 0")
      case True
      with assms(1) st \<open>\<not> rc1 < 0\<close> dv show ?thesis
        by (simp add: oshu_audio_open_def src open_failed_def)
    next
      case False
      from create_graph_returns [OF assms(1,2), of a2 evs2] s a2 obtain rc3 a3 evs3
        where "create_graph env a2 evs2 = Return (rc3, a3, evs3)"
        by (auto dest!: returnedD)
      with assms(1) st \<open>\<not> rc1 < 0\<close> dv False show ?thesis
        by (simp add: oshu_audio_open_def src open_failed_def)
    qed
  qed
qed

text \<open>
  C7, as the code has it. Whenever \<open>oshu_audio_open\<close> returns a status other than 0,
  the status is \<open>- 1\<close>, the caller's handle is \<open>NULL\<close>, and the events of the call release
  only what the call acquired, each once: replayed over anything held before, they
  leave that untouched and leave nothing of the stream, the device or the context
  held (what can stay held is named by \<open>graph_piece\<close>). And the call does return, with
  a status, whatever the library calls report, as long as the allocations succeed, the
  filters are registered and the library selects a stream that exists.
\<close>

theorem failed_open_tears_down:
  "(\<forall>rc h evs'. oshu_audio_open env url evs = Return (rc, h, evs') \<and> rc \<noteq> 0 \<longrightarrow>
      rc = - 1 \<and> h = None
      \<and> (\<exists>added leaked. evs' = evs @ added
            \<and> (\<forall>live. held added live = Some (leaked @ live))
            \<and> list_all graph_piece leaked))
   \<and> ((\<forall>r. allocates env r) \<and> (\<forall>f. registered env f)
        \<and> (\<forall>d. media env url = Inr d \<longrightarrow> best_stream d < int (length (streams d)))
      \<longrightarrow> returned (oshu_audio_open env url evs))"
proof (intro conjI allI impI)
  fix rc h evs'
  assume h: "oshu_audio_open env url evs = Return (rc, h, evs') \<and> rc \<noteq> 0"
  then have r: "rc = - 1 \<and> h = None
      \<and> (\<exists>added leaked. evs' = evs @ added
            \<and> (\<forall>live. held added live = Some (leaked @ live)) \<and> list_all graph_piece leaked)"
    by (intro failed_open_result [of env url evs rc h evs']) simp_all
  from r show "rc = - 1"
    by simp
  from r show "h = None"
    by simp
  from r show "\<exists>added leaked. evs' = evs @ added
      \<and> (\<forall>live. held added live = Some (leaked @ live)) \<and> list_all graph_piece leaked"
    by simp
next
  assume "(\<forall>r. allocates env r) \<and> (\<forall>f. registered env f)
      \<and> (\<forall>d. media env url = Inr d \<longrightarrow> best_stream d < int (length (streams d)))"
  then show "returned (oshu_audio_open env url evs)"
    by (intro oshu_audio_open_returns) simp_all
qed

text \<open>
  A device that cannot be opened: the stream that was opened is closed again, and the
  context is freed.
\<close>

theorem failed_open_tears_down_witness:
  "\<exists>evs'. oshu_audio_open
       ((studio (track_of [0, 5, 10]) two_rounds)\<lparr>audio_device := (\<lambda>want. (0, want))\<rparr>)
       ''song.ogg'' [] = Return (- 1, None, evs')
     \<and> (\<exists>leaked. held evs' [] = Some leaked \<and> list_all graph_piece leaked)"
proof -
  let ?env = "(studio (track_of [0, 5, 10]) two_rounds)\<lparr>audio_device := (\<lambda>want. (0, want))\<rparr>"
  have env: "(\<forall>r. allocates ?env r) \<and> (\<forall>f. registered ?env f)
      \<and> (\<forall>d. media ?env ''song.ogg'' = Inr d \<longrightarrow> best_stream d < int (length (streams d)))"
    by (auto simp: studio_def track_of_def)
  note t = failed_open_tears_down [of ?env "''song.ogg''" "[]"]
  from t env have "returned (oshu_audio_open ?env ''song.ogg'' [])"
    by blast
  then obtain x where x: "oshu_audio_open ?env ''song.ogg'' [] = Return x"
    by (auto dest: returnedD)
  obtain rc h evs' where xx: "x = (rc, h, evs')"
    by (cases x)
  have "(case oshu_audio_open ?env ''song.ogg'' [] of Return (rc, h, evs) \<Rightarrow> rc \<noteq> 0 | _ \<Rightarrow> False)"
    by code_simp
  with x xx have "rc \<noteq> 0"
    by simp
  with t x xx show ?thesis
    by fastforce
qed

text \<open>
  Against C7 as stated: when the configuration of the graph fails, the call returns
  \<open>- 1\<close> with a \<open>NULL\<close> handle, and the graph and its five filters, acquired by the call,
  are still held: nothing releases them.
\<close>

theorem failed_graph_is_not_released:
  "andthen (oshu_audio_open broken_graph ''song.ogg'' [])
     (\<lambda>(rc, h, evs). Return (rc, h, held evs []))
   = Return (- 1, None,
       Some [Filter ''sink'', Filter ''converter'', Filter ''mixer'', Filter ''effect'',
         Filter ''music'', Filter_graph])"
  by code_simp

section \<open>What the open asks of the device and builds into the graph\<close>

text \<open>
  The request to the device is made from the decoder: its sample rate and its channel
  count, with 32-bit float samples. The caller of \<open>oshu_audio_open\<close> passes no format.
\<close>

lemma device_request:
  assumes "open_device env a evs = Return (rc, a', evs')"
  shows "\<exists>c. decoder (source a) = Some c
    \<and> device_spec a' = snd (audio_device env
        \<lparr>freq = sample_rate c, format = AUDIO_F32, spec_channels = word_of_int (channels c),
         silence = 0,
         samples = word_of_int (sample_buffer_size * uint (word_of_int (channels c) :: 8 word))\<rparr>)"
  using assms
  by (auto simp: open_device_def andthen_Return_iff deref_Return_iff Let_def case_prod_beta
      zeroed_spec_def split: if_splits)

lemma then_stage_Return_0:
  "then_stage m k = Return (0, st) \<Longrightarrow> \<exists>st1. m = Return (0, st1) \<and> k st1 = Return (0, st)"
  by (auto simp: then_stage_def andthen_Return_iff split: if_splits)

text \<open>
  The graph a successful \<open>create_graph\<close> leaves: the mixer is set up with two inputs
  and the duration of the first, the converter with the float sample format only, and
  the music source is linked to the first input of the mixer, the effect source to the
  second. What the sink then delivers is the work of libavfilter.
\<close>

lemma graph_is_wired:
  assumes "create_graph env a evs = Return (0, a', evs')"
  shows "map_option init_args (mixer (pipeline a')) = Some (Some ''inputs=2:duration=first'')
     \<and> map_option init_args (converter (pipeline a')) = Some (Some ''sample_fmts=flt'')
     \<and> map_option links (graph (pipeline a')) =
         Some [(''music'', 0, ''mixer'', 0), (''effect'', 0, ''mixer'', 1),
           (''mixer'', 0, ''converter'', 0), (''converter'', 0, ''sink'', 0)]"
proof -
  from assms obtain p where g: "graph_stages env a (pipeline a, evs) = Return (0, p, evs')"
    and a': "a' = a\<lparr>pipeline := p\<rparr>"
    by (auto simp: create_graph_def andthen_Return_iff split: if_splits)
  from g obtain p1 e1 p2 e2 p3 e3 p4 e4 p5 e5 p6 e6
    where s: "music_stage env a (pipeline a, evs) = Return (0, p1, e1)"
      "effect_stage env a (p1, e1) = Return (0, p2, e2)"
      "mixer_stage env (p2, e2) = Return (0, p3, e3)"
      "converter_stage env (p3, e3) = Return (0, p4, e4)"
      "sink_stage env (p4, e4) = Return (0, p5, e5)"
      "links_stage env (p5, e5) = Return (0, p6, e6)"
      "config_stage env (p6, e6) = Return (0, p, evs')"
    unfolding graph_stages_def
    by (auto dest!: then_stage_Return_0)
  from s(6) obtain q1 f1 q2 f2 q3 f3
    where l: "avfilter_link env ''music'' 0 ''mixer'' 0 (p5, e5) = Return (0, q1, f1)"
      "avfilter_link env ''effect'' 0 ''mixer'' 1 (q1, f1) = Return (0, q2, f2)"
      "avfilter_link env ''mixer'' 0 ''converter'' 0 (q2, f2) = Return (0, q3, f3)"
      "avfilter_link env ''converter'' 0 ''sink'' 0 (q3, f3) = Return (0, p6, e6)"
    unfolding links_stage_def
    by (auto dest!: then_stage_Return_0)
  from s(1) have p1: "map_option links (graph p1) = Some []"
    by (auto simp: music_stage_def asserting_def Let_def andthen_Return_iff split: if_splits)
  from s(2) have p2: "graph p2 = graph p1"
    by (auto simp: effect_stage_def asserting_def Let_def split: if_splits)
  from s(3) have p3: "graph p3 = graph p2"
      "map_option init_args (mixer p3) = Some (Some ''inputs=2:duration=first'')"
    by (auto simp: mixer_stage_def asserting_def Let_def avfilter_init_str_def split: if_splits)
  from s(4) have p4: "graph p4 = graph p3" "mixer p4 = mixer p3"
      "map_option init_args (converter p4) = Some (Some ''sample_fmts=flt'')"
    by (auto simp: converter_stage_def asserting_def Let_def avfilter_init_str_def
        split: if_splits)
  from s(5) have p5: "graph p5 = graph p4" "mixer p5 = mixer p4" "converter p5 = converter p4"
    by (auto simp: sink_stage_def asserting_def Let_def split: if_splits)
  from l have p6: "map_option links (graph p6) =
        map_option (\<lambda>ls. ls @ [(''music'', 0, ''mixer'', 0), (''effect'', 0, ''mixer'', 1),
          (''mixer'', 0, ''converter'', 0), (''converter'', 0, ''sink'', 0)])
          (map_option links (graph p5))"
      "mixer p6 = mixer p5" "converter p6 = converter p5"
    by (auto simp: avfilter_link_def option.map_comp comp_def split: if_splits)
  from s(7) have p: "map_option links (graph p) = map_option links (graph p6)"
      "mixer p = mixer p6" "converter p = converter p6"
    by (auto simp: config_stage_def asserting_def Let_def option.map_comp comp_def
        split: if_splits)
  from p p6 p5 p4 p3 p2 p1 a' show ?thesis
    by simp
qed

end
